theory Spec2Isabelle
  imports Main "HOL-Library.Word" "HOL-Library.Sublist"
begin

section \<open>Bytes, streams and errors\<close>

text \<open>
  A \<^verbatim>\<open>Uint8Array\<close> is a list of bytes. A \<^verbatim>\<open>ReadableStream\<close> that is read to its
  end is the list of chunks it delivers together with the way it ends: \<open>None\<close> when it
  closes, \<open>Some e\<close> when it errors with \<open>e\<close> after the chunks.
\<close>

type_synonym byte = "8 word"
type_synonym bytes = "byte list"

text \<open>
  What the environment can raise: a rejected AWS SDK \<^verbatim>\<open>send\<close>, a stream that errors, a
  library parser that throws. \<open>fst\<close> is \<^verbatim>\<open>err.$metadata?.httpStatusCode\<close> (absent is
  \<open>None\<close>), \<open>snd\<close> the message.
\<close>

type_synonym envfail = "nat option \<times> string"

type_synonym 'a rstream = "'a list \<times> envfail option"

text \<open>
  A rejected promise. \<open>EnvError\<close> comes from the environment, \<open>Error\<close> is
  \<^verbatim>\<open>new Error(msg)\<close> thrown by the repository's own code, \<open>UnprocessedError n\<close> is
  \<^verbatim>\<open>new Error(`${n} unprocessed items`)\<close> and \<open>ErrorCause msg e\<close> is
  \<^verbatim>\<open>new Error(msg, { cause: e })\<close>.
\<close>

datatype exn =
    EnvError envfail
  | Error string
  | UnprocessedError nat
  | ErrorCause string exn

text \<open>\<^verbatim>\<open>err.$metadata?.httpStatusCode\<close>: only an SDK exception carries one.\<close>

fun httpStatusCode :: "exn \<Rightarrow> nat option" where
  "httpStatusCode (EnvError f) = fst f"
| "httpStatusCode (Error m) = None"
| "httpStatusCode (UnprocessedError n) = None"
| "httpStatusCode (ErrorCause m e) = None"

text \<open>
  A handler's return value \<^verbatim>\<open>{ statusCode, body }\<close>. The body is a JSON text; it is kept
  as the object that was serialised: \<open>OkBody\<close> is \<^verbatim>\<open>{"ok":true}\<close>, \<open>OkUpdated n\<close> is
  \<^verbatim>\<open>{"ok":true,"updated":n}\<close>, \<open>OkCid s\<close> is \<^verbatim>\<open>{"ok":true,"cid":{"/":"s"}}\<close> and
  \<open>ErrBody m\<close> is \<^verbatim>\<open>{"ok":false,"error":m}\<close>.
\<close>

datatype body = OkBody | OkUpdated nat | OkCid string | ErrBody string

record response =
  statusCode :: nat
  body :: body

definition errorResponse :: "string \<Rightarrow> nat \<Rightarrow> response" where
  "errorResponse message code = \<lparr>statusCode = code, body = ErrBody message\<rparr>"

section \<open>Content identifiers\<close>

text \<open>
  \<^verbatim>\<open>MultihashDigest\<close> and \<^verbatim>\<open>Link\<close> of the multiformats library, with the fields the
  repository reads.
\<close>

record MultihashDigest =
  mh_code :: nat
  mh_size :: nat
  mh_digest :: bytes

record Link =
  cid_version :: nat
  cid_code :: nat
  cid_multihash :: MultihashDigest

definition CAR_CODEC :: nat where
  "CAR_CODEC = 0x0202"

text \<open>\<^verbatim>\<open>sha256.code\<close> of multiformats/hashes/sha2.\<close>

definition sha256_code :: nat where
  "sha256_code = 0x12"

text \<open>\<^verbatim>\<open>Digest.create(code, digest)\<close>: the size is the length of the digest.\<close>

definition Digest_create :: "nat \<Rightarrow> bytes \<Rightarrow> MultihashDigest" where
  "Digest_create code digest = \<lparr>mh_code = code, mh_size = length digest, mh_digest = digest\<rparr>"

text \<open>\<^verbatim>\<open>Link.create(code, digest)\<close>: a version 1 cid.\<close>

definition Link_create :: "nat \<Rightarrow> MultihashDigest \<Rightarrow> Link" where
  "Link_create code digest = \<lparr>cid_version = 1, cid_code = code, cid_multihash = digest\<rparr>"

section \<open>Library functions\<close>

text \<open>
  The libraries the repository calls are parameters of the model. \<open>createHash\<close>,
  \<open>hash_update\<close> and \<open>hash_digest\<close> are \<^verbatim>\<open>crypto.createHash('sha256')\<close>,
  \<^verbatim>\<open>hash.update(chunk)\<close> and \<^verbatim>\<open>hash.digest()\<close> on a hasher state \<open>'h\<close>;
  \<open>base64\<close> is base64 with padding, which \<^verbatim>\<open>base64pad.encode\<close> prefixes with the
  multibase character \<^verbatim>\<open>M\<close>; \<open>link_toString\<close> is \<^verbatim>\<open>cid.toString()\<close>.
\<close>

record 'h libs =
  createHash :: 'h
  hash_update :: "'h \<Rightarrow> bytes \<Rightarrow> 'h"
  hash_digest :: "'h \<Rightarrow> bytes"
  base64 :: "bytes \<Rightarrow> string"
  link_toString :: "Link \<Rightarrow> string"

text \<open>The sha256 of a byte sequence hashed in one piece.\<close>

definition sha256 :: "'h libs \<Rightarrow> bytes \<Rightarrow> bytes" where
  "sha256 L bs = hash_digest L (hash_update L (createHash L) bs)"

text \<open>
  The contract of an incremental sha256: feeding two pieces one after the other is
  feeding their concatenation, feeding nothing changes nothing, and a digest has 32
  bytes.
\<close>

definition sha256_contract :: "'h libs \<Rightarrow> bool" where
  "sha256_contract L \<longleftrightarrow>
     (\<forall>h a b. hash_update L (hash_update L h a) b = hash_update L h (a @ b)) \<and>
     (\<forall>h. hash_update L h [] = h) \<and>
     (\<forall>h. length (hash_digest L h) = 32)"

section \<open>The object store\<close>

text \<open>The fields of an S3 command output that the repository reads.\<close>

record s3out =
  Body :: "bytes rstream option"
  ContentLength :: "nat option"
  UploadId :: "string option"
  ETag :: "string option"

section \<open>Shard Hasher\<close>

text \<open>
  The hash handler. \<open>params\<close> is \<^verbatim>\<open>searchParams\<close>; \<open>getObject region bucket key\<close> is the
  outcome of sending the \<^verbatim>\<open>GetObjectCommand\<close> on a client of that region. A rejected
  send and a body stream that errors reject the handler.
\<close>

definition missing :: "string option \<Rightarrow> bool" where
  "missing v = (case v of None \<Rightarrow> True | Some s \<Rightarrow> s = [])"

definition hash_handler ::
  "'h libs \<Rightarrow> (string \<Rightarrow> string \<Rightarrow> string \<Rightarrow> envfail + s3out) \<Rightarrow> (string \<rightharpoonup> string) \<Rightarrow> exn + response"
where
  "hash_handler L getObject params =
    (let region = params ''region'' in
     if missing region then Inr (errorResponse ''Missing \"region\" search parameter'' 400)
     else if the region \<notin> set [''us-east-2'', ''us-west-2''] then Inr (errorResponse ''Invalid region'' 400)
     else let bucket = params ''bucket'' in
     if missing bucket then Inr (errorResponse ''Missing \"bucket\" search parameter'' 400)
     else if \<not> prefix ''dotstorage'' (the bucket) then Inr (errorResponse ''Invalid bucket'' 400)
     else let key = params ''key'' in
     if missing key then Inr (errorResponse ''Missing \"key\" search parameter'' 400)
     else if \<not> suffix ''.car'' (the key) then Inr (errorResponse ''Only keys for CARs supported'' 400)
     else case getObject (the region) (the bucket) (the key) of
       Inl f \<Rightarrow> Inl (EnvError f)
     | Inr res \<Rightarrow>
        (case Body res of
           None \<Rightarrow> Inr (errorResponse ''Object not found'' 404)
         | Some (chunks, Some f) \<Rightarrow> Inl (EnvError f)
         | Some (chunks, None) \<Rightarrow>
             let hash = foldl (hash_update L) (createHash L) chunks;
                 digest = Digest_create sha256_code (hash_digest L hash);
                 cid = Link_create CAR_CODEC digest
             in Inr \<lparr>statusCode = 200, body = OkCid (link_toString L cid)\<rparr>))"

section \<open>Shard Copier\<close>

record ObjectID =
  region :: string
  bucket :: string
  key :: string
  endpoint :: "string option"
  credentials :: "(string \<times> string) option"

record ShardObjectID = ObjectID +
  cid :: Link

record ShardSource = ShardObjectID +
  src_size :: nat
  src_body :: "bytes rstream"

record PartSource =
  uploadID :: string
  partNumber :: nat
  part_body :: bytes

record CompletedPart =
  cp_ETag :: "string option"
  cp_PartNumber :: nat
  cp_ChecksumSHA256 :: string

text \<open>
  The commands the copier sends, with the fields it sets, in the order of the comments:
  a \<^verbatim>\<open>Body\<close> is a stream or a byte array.
\<close>

datatype putbody = StreamBody "bytes rstream" | BytesBody bytes

datatype s3cmd =
    HeadObject string string \<comment> \<open>Bucket, Key\<close>
  | GetObject string string \<comment> \<open>Bucket, Key\<close>
  | PutObject string string putbody "nat option" "string option"
      \<comment> \<open>Bucket, Key, Body, ContentLength, ChecksumSHA256\<close>
  | CreateMultipartUpload string string \<comment> \<open>Bucket, Key\<close>
  | UploadPart string nat string string bytes nat string
      \<comment> \<open>UploadId, PartNumber, Bucket, Key, Body, ContentLength, ChecksumSHA256\<close>
  | AbortMultipartUpload string string string \<comment> \<open>Bucket, Key, UploadId\<close>
  | CompleteMultipartUpload string string string "CompletedPart list"
      \<comment> \<open>Bucket, Key, UploadId, MultipartUpload.Parts\<close>

text \<open>
  \<^verbatim>\<open>s3Client({ region, endpoint, credentials })\<close>: a client is the configuration it was
  made from. A request is a command sent on a client.
\<close>

type_synonym s3client = "string \<times> string option \<times> (string \<times> string) option"

definition s3Client :: "'a ObjectID_scheme \<Rightarrow> s3client" where
  "s3Client oid = (region oid, endpoint oid, credentials oid)"

type_synonym s3req = "s3client \<times> s3cmd"

text \<open>
  The object store is the environment: it answers a request, given the requests sent
  before it, with an output or an exception. \<open>send\<close> appends the request to the history
  and returns the answer.
\<close>

type_synonym s3env = "s3req list \<Rightarrow> s3req \<Rightarrow> envfail + s3out"

definition send :: "s3env \<Rightarrow> s3client \<Rightarrow> s3cmd \<Rightarrow> s3req list \<Rightarrow> s3req list \<times> (exn + s3out)" where
  "send env client cmd h =
     (h @ [(client, cmd)],
      case env h (client, cmd) of Inl f \<Rightarrow> Inl (EnvError f) | Inr out \<Rightarrow> Inr out)"

definition MAX_PUT_SIZE :: nat where
  "MAX_PUT_SIZE = 1024 * 1024 * 1024 * 5"

definition TARGET_PART_SIZE :: nat where
  "TARGET_PART_SIZE = 1024 * 1024 * 100"

text \<open>\<^verbatim>\<open>base64pad.encode\<close> of multiformats: the multibase prefix, then the base64 text.\<close>

definition base64pad_encode :: "'h libs \<Rightarrow> bytes \<Rightarrow> string" where
  "base64pad_encode L bs = CHR ''M'' # base64 L bs"

definition uploadPart ::
  "'h libs \<Rightarrow> s3env \<Rightarrow> PartSource \<Rightarrow> 'a ObjectID_scheme \<Rightarrow> s3req list \<Rightarrow> s3req list \<times> (exn + CompletedPart)"
where
  "uploadPart L env src dest h =
    (let digest = Digest_create sha256_code (sha256 L (part_body src));
         checksum = drop 1 (base64pad_encode L (mh_digest digest))
     in case send env (s3Client dest)
               (UploadPart (uploadID src) (partNumber src) (bucket dest) (key dest)
                  (part_body src) (length (part_body src)) checksum) h of
          (h', Inl e) \<Rightarrow> (h', Inl e)
        | (h', Inr res) \<Rightarrow>
            (h', Inr \<lparr>cp_ETag = ETag res, cp_PartNumber = partNumber src, cp_ChecksumSHA256 = checksum\<rparr>))"

text \<open>
  The multipart sink of \<open>writeCAR\<close>: the variables \<^verbatim>\<open>hasher\<close>, \<^verbatim>\<open>buffer\<close> and
  \<^verbatim>\<open>parts\<close> that its \<^verbatim>\<open>start\<close>, \<^verbatim>\<open>write\<close> and \<^verbatim>\<open>close\<close> callbacks share.
\<close>

record 'h sink =
  hasher :: 'h
  buffer :: bytes
  parts :: "CompletedPart list"

definition sink_start ::
  "s3env \<Rightarrow> 'a ObjectID_scheme \<Rightarrow> s3req list \<Rightarrow> s3req list \<times> (exn + string)"
where
  "sink_start env dest h =
    (case send env (s3Client dest) (CreateMultipartUpload (bucket dest) (key dest)) h of
       (h', Inl e) \<Rightarrow> (h', Inl e)
     | (h', Inr res) \<Rightarrow>
         (case UploadId res of
            None \<Rightarrow> (h', Inl (Error ''missing multipart upload ID''))
          | Some u \<Rightarrow> if u = [] then (h', Inl (Error ''missing multipart upload ID''))
                      else (h', Inr u)))"

definition sink_write ::
  "'h libs \<Rightarrow> s3env \<Rightarrow> 'a ObjectID_scheme \<Rightarrow> string \<Rightarrow> 'h sink \<Rightarrow> bytes \<Rightarrow> s3req list
     \<Rightarrow> s3req list \<times> (exn + 'h sink)"
where
  "sink_write L env dest uid st chunk h =
    (let buffer' = buffer st @ chunk;
         hasher' = hash_update L (hasher st) chunk
     in if length buffer' \<ge> TARGET_PART_SIZE then
          (case uploadPart L env
                  \<lparr>uploadID = uid, partNumber = length (parts st), part_body = buffer'\<rparr> dest h of
             (h', Inl e) \<Rightarrow> (h', Inl e)
           | (h', Inr part) \<Rightarrow>
               (h', Inr \<lparr>hasher = hasher', buffer = [], parts = parts st @ [part]\<rparr>))
        else (h, Inr \<lparr>hasher = hasher', buffer = buffer', parts = parts st\<rparr>))"

text \<open>The chunks are written in order; a write that throws errors the sink.\<close>

fun sink_writes ::
  "'h libs \<Rightarrow> s3env \<Rightarrow> 'a ObjectID_scheme \<Rightarrow> string \<Rightarrow> 'h sink \<Rightarrow> bytes list \<Rightarrow> s3req list
     \<Rightarrow> s3req list \<times> (exn + 'h sink)"
where
  "sink_writes L env dest uid st [] h = (h, Inr st)"
| "sink_writes L env dest uid st (chunk # chunks) h =
    (case sink_write L env dest uid st chunk h of
       (h', Inl e) \<Rightarrow> (h', Inl e)
     | (h', Inr st') \<Rightarrow> sink_writes L env dest uid st' chunks h')"

definition sink_close ::
  "'h libs \<Rightarrow> s3env \<Rightarrow> 'b ShardObjectID_scheme \<Rightarrow> 'a ObjectID_scheme \<Rightarrow> string \<Rightarrow> 'h sink
     \<Rightarrow> s3req list \<Rightarrow> s3req list \<times> (exn + unit)"
where
  "sink_close L env src dest uid st h =
    (case (if buffer st \<noteq> [] then
             (case uploadPart L env
                     \<lparr>uploadID = uid, partNumber = length (parts st), part_body = buffer st\<rparr> dest h of
                (h', Inl e) \<Rightarrow> (h', Inl e)
              | (h', Inr part) \<Rightarrow> (h', Inr (parts st @ [part])))
           else (h, Inr (parts st))) of
       (h1, Inl e) \<Rightarrow> (h1, Inl e)
     | (h1, Inr parts') \<Rightarrow>
         (let digest = Digest_create sha256_code (hash_digest L (hasher st))
          in if link_toString L (Link_create CAR_CODEC digest) \<noteq> link_toString L (cid src) then
               (case send env (s3Client dest)
                       (AbortMultipartUpload (bucket dest) (key dest) uid) h1 of
                  (h2, Inl e) \<Rightarrow> (h2, Inl e)
                | (h2, Inr res) \<Rightarrow> (h2, Inl (Error ''integrity check failed'')))
             else
               (case send env (s3Client dest)
                       (CompleteMultipartUpload (bucket dest) (key dest) uid parts') h1 of
                  (h2, Inl e) \<Rightarrow> (h2, Inl e)
                | (h2, Inr res) \<Rightarrow> (h2, Inr ()))))"

text \<open>
  \<open>writeCAR\<close>. \<open>options\<close> is \<^verbatim>\<open>options?.maxPutSize\<close> and \<open>maxPutSize options\<close> is
  \<^verbatim>\<open>options?.maxPutSize ?? MAX_PUT_SIZE\<close>. On the multipart path the body is
  piped to the sink: \<^verbatim>\<open>start\<close>, a \<^verbatim>\<open>write\<close> for each chunk, then \<^verbatim>\<open>close\<close> when the
  stream closes; when the stream errors the pipe rejects with its error and \<^verbatim>\<open>close\<close>
  is not called.
\<close>

definition maxPutSize :: "nat option \<Rightarrow> nat" where
  "maxPutSize options = (case options of None \<Rightarrow> MAX_PUT_SIZE | Some m \<Rightarrow> m)"

definition writeCAR ::
  "'h libs \<Rightarrow> s3env \<Rightarrow> 'b ShardSource_scheme \<Rightarrow> 'a ObjectID_scheme \<Rightarrow> nat option \<Rightarrow> s3req list
     \<Rightarrow> s3req list \<times> (exn + unit)"
where
  "writeCAR L env src dest options h =
    (if src_size src < maxPutSize options then
       (case send env (s3Client dest)
                  (PutObject (bucket dest) (key dest) (StreamBody (src_body src))
                     (Some (src_size src))
                     (Some (drop 1 (base64pad_encode L (mh_digest (cid_multihash (cid src))))))) h of
             (h', Inl e) \<Rightarrow> (h', Inl e)
           | (h', Inr res) \<Rightarrow> (h', Inr ()))
        else
          (case sink_start env dest h of
             (h1, Inl e) \<Rightarrow> (h1, Inl e)
           | (h1, Inr uid) \<Rightarrow>
               (case sink_writes L env dest uid
                       \<lparr>hasher = createHash L, buffer = [], parts = []\<rparr> (fst (src_body src)) h1 of
                  (h2, Inl e) \<Rightarrow> (h2, Inl e)
                | (h2, Inr st) \<Rightarrow>
                    (case snd (src_body src) of
                       Some f \<Rightarrow> (h2, Inl (EnvError f))
                     | None \<Rightarrow> sink_close L env src dest uid st h2))))"




section \<open>Shard Reindexer\<close>

subsection \<open>Libraries and the shard's multihashes\<close>

text \<open>\<^verbatim>\<open>Block & Position\<close> of carstream: the fields of a block read from a CAR.\<close>

record Block =
  blk_cid :: Link
  blk_offset :: nat
  blk_length :: nat

text \<open>
  The libraries of the reindexer, as parameters: \<^verbatim>\<open>base58btc.encode\<close>, the
  \<^verbatim>\<open>bytes\<close> of a multihash, \<^verbatim>\<open>cid.toString()\<close>, the entries (multihash and offset)
  that \<^verbatim>\<open>MultihashIndexSortedReader\<close> reads from a body, and the blocks that
  \<^verbatim>\<open>CARReaderStream\<close> reads from one.
\<close>

record codecs =
  base58btc_encode :: "bytes \<Rightarrow> string"
  multihash_bytes :: "MultihashDigest \<Rightarrow> bytes"
  cid_toString :: "Link \<Rightarrow> string"
  MultihashIndexSortedReader :: "bytes rstream \<Rightarrow> (MultihashDigest \<times> nat) rstream"
  CARReaderStream :: "bytes rstream \<Rightarrow> Block rstream"

definition shardBlocks ::
  "codecs \<Rightarrow> s3env \<Rightarrow> ShardObjectID \<Rightarrow> s3req list \<Rightarrow> s3req list \<times> (exn + Block rstream)"
where
  "shardBlocks X env src h =
    (case send env (s3Client src) (GetObject (bucket src) (key src)) h of
       (h', Inl e) \<Rightarrow> (h', Inl e)
     | (h', Inr res) \<Rightarrow>
         (case Body res of
            None \<Rightarrow> (h', Inl (Error ''missing body''))
          | Some b \<Rightarrow> (h', Inr (CARReaderStream X b))))"

text \<open>
  \<open>shardMultihashes\<close>. The \<^verbatim>\<open>try\<close> block holds the GET of the side index and the check
  of its body, so a missing body is caught like a rejected GET, and it carries no status.
\<close>

definition shardMultihashes ::
  "codecs \<Rightarrow> s3env \<Rightarrow> ShardObjectID \<Rightarrow> s3req list
     \<Rightarrow> s3req list \<times> (exn + MultihashDigest rstream)"
where
  "shardMultihashes X env src h =
    (case (case send env (s3Client src) (GetObject (bucket src) (key src @ ''.idx'')) h of
             (h', Inl e) \<Rightarrow> (h', Inl e)
           | (h', Inr res) \<Rightarrow>
               (case Body res of
                  None \<Rightarrow> (h', Inl (Error ''missing body''))
                | Some b \<Rightarrow> (h', Inr b))) of
       (h', Inr b) \<Rightarrow>
         (h', Inr (map fst (fst (MultihashIndexSortedReader X b)),
                   snd (MultihashIndexSortedReader X b)))
     | (h', Inl err) \<Rightarrow>
         if httpStatusCode err \<noteq> Some 404 then
           (h', Inl (ErrorCause (''failed to read index: '' @ key src @ ''.idx'') err))
         else
           (case shardBlocks X env src h' of
              (h'', Inl e) \<Rightarrow> (h'', Inl e)
            | (h'', Inr blocks) \<Rightarrow>
                (h'', Inr (map (\<lambda>block. cid_multihash (blk_cid block)) (fst blocks), snd blocks))))"

subsection \<open>The block index table\<close>

text \<open>
  A row of the table. Its primary key is \<open>(blockmultihash, carpath)\<close>, so the table maps
  a key to the other attributes, \<open>(offset, length)\<close>.
\<close>

record BlockIndexItem =
  blockmultihash :: string
  carpath :: string
  offset :: nat
  length' :: nat

type_synonym rowkey = "string \<times> string"

type_synonym table = "rowkey \<rightharpoonup> nat \<times> nat"

datatype WriteRequest =
    PutRequest BlockIndexItem \<comment> \<open>Item\<close>
  | DeleteRequest string string \<comment> \<open>Key: blockmultihash, carpath\<close>

datatype dyncmd =
    BatchGetItem string "rowkey list" \<comment> \<open>table name, Keys\<close>
  | BatchWriteItem string "WriteRequest list" \<comment> \<open>table name, requests\<close>

text \<open>
  What a command came back with: a rejection, the \<^verbatim>\<open>Responses\<close> of a BatchGetItem, or
  the \<^verbatim>\<open>UnprocessedItems\<close> of a BatchWriteItem.
\<close>

datatype dynres =
    Rejected envfail
  | Responses "BlockIndexItem list"
  | UnprocessedItems "WriteRequest list"

type_synonym dynevent = "dyncmd \<times> dynres"

text \<open>
  DynamoDB is the environment. Given the events so far and a command it says which keys
  or requests it leaves unprocessed, and whether it rejects the command; what it does
  process takes effect on the table. The reindexer is the only writer here.
\<close>

record dynenv =
  get_answer :: "dynevent list \<Rightarrow> string \<Rightarrow> rowkey list \<Rightarrow> (rowkey \<Rightarrow> bool) \<times> envfail option"
  write_answer ::
    "dynevent list \<Rightarrow> string \<Rightarrow> WriteRequest list \<Rightarrow> (WriteRequest \<Rightarrow> bool) \<times> envfail option"

record dynamo =
  tables :: "string \<Rightarrow> table"
  events :: "dynevent list"

definition item_at :: "table \<Rightarrow> rowkey \<Rightarrow> BlockIndexItem option" where
  "item_at t k =
     (case t k of
        None \<Rightarrow> None
      | Some (off, len) \<Rightarrow>
          Some \<lparr>blockmultihash = fst k, carpath = snd k, offset = off, length' = len\<rparr>)"

fun apply_write :: "table \<Rightarrow> WriteRequest \<Rightarrow> table" where
  "apply_write t (PutRequest item) =
     t((blockmultihash item, carpath item) \<mapsto> (offset item, length' item))"
| "apply_write t (DeleteRequest m c) = t((m, c) := None)"

text \<open>
  Sending a BatchGetItem: the rows of the processed keys that exist, in the order of the
  keys. A rejected read returns nothing.
\<close>

definition batch_get ::
  "dynenv \<Rightarrow> string \<Rightarrow> rowkey list \<Rightarrow> dynamo \<Rightarrow> dynamo \<times> (exn + BlockIndexItem list)"
where
  "batch_get env tn keys st =
    (case get_answer env (events st) tn keys of
       (unprocessed, Some f) \<Rightarrow>
         (st\<lparr>events := events st @ [(BatchGetItem tn keys, Rejected f)]\<rparr>, Inl (EnvError f))
     | (unprocessed, None) \<Rightarrow>
         (let items = List.map_filter (item_at (tables st tn))
                        (filter (\<lambda>k. \<not> unprocessed k) keys)
          in (st\<lparr>events := events st @ [(BatchGetItem tn keys, Responses items)]\<rparr>, Inr items)))"

text \<open>
  Sending a BatchWriteItem: the processed requests are applied in order; the others come
  back as unprocessed, unless the command is rejected.
\<close>

definition batch_write ::
  "dynenv \<Rightarrow> string \<Rightarrow> WriteRequest list \<Rightarrow> dynamo \<Rightarrow> dynamo \<times> (exn + WriteRequest list)"
where
  "batch_write env tn items st =
    (case write_answer env (events st) tn items of
       (unprocessed, failure) \<Rightarrow>
         (let t = foldl apply_write (tables st tn) (filter (\<lambda>r. \<not> unprocessed r) items);
              res = (case failure of
                       Some f \<Rightarrow> Rejected f
                     | None \<Rightarrow> UnprocessedItems (filter unprocessed items))
          in (\<lparr>tables = (tables st)(tn := t),
               events = events st @ [(BatchWriteItem tn items, res)]\<rparr>,
              case failure of
                Some f \<Rightarrow> Inl (EnvError f)
              | None \<Rightarrow> Inr (filter unprocessed items))))"

subsection \<open>The reindex pipeline\<close>

record TableID =
  tableName :: string
  table_endpoint :: "string option"
  table_credentials :: "(string \<times> string) option"

text \<open>
  \<^verbatim>\<open>writeItems\<close>: \<^verbatim>\<open>retry(fn, { retries: 2 })\<close> of p-retry runs \<^verbatim>\<open>fn\<close> again after it
  throws, at most \<open>retries\<close> times more, and rejects with the last error. \<^verbatim>\<open>fn\<close> sends
  \<^verbatim>\<open>items\<close> and, when some come back unprocessed, assigns them to \<^verbatim>\<open>items\<close> before it
  throws; a rejected send leaves \<^verbatim>\<open>items\<close> as it is.
\<close>

fun retry_write ::
  "nat \<Rightarrow> dynenv \<Rightarrow> string \<Rightarrow> WriteRequest list \<Rightarrow> dynamo \<Rightarrow> dynamo \<times> (exn + unit)"
where
  "retry_write 0 env tn items st =
    (case batch_write env tn items st of
       (st', Inl e) \<Rightarrow> (st', Inl e)
     | (st', Inr unprocessed) \<Rightarrow>
         if unprocessed \<noteq> [] then (st', Inl (UnprocessedError (length unprocessed)))
         else (st', Inr ()))"
| "retry_write (Suc retries) env tn items st =
    (case batch_write env tn items st of
       (st', Inl e) \<Rightarrow> retry_write retries env tn items st'
     | (st', Inr unprocessed) \<Rightarrow>
         if unprocessed \<noteq> [] then retry_write retries env tn unprocessed st'
         else (st', Inr ()))"

definition writeItems ::
  "dynenv \<Rightarrow> string \<Rightarrow> WriteRequest list \<Rightarrow> dynamo \<Rightarrow> dynamo \<times> (exn + unit)"
where
  "writeItems env tn items st = retry_write 2 env tn items st"

text \<open>The carpath of the legacy rows of a shard, and the carpath of its new rows.\<close>

definition legacy_carpath :: "ShardObjectID \<Rightarrow> string" where
  "legacy_carpath src = region src @ ''/'' @ bucket src @ ''/'' @ key src"

definition canonical_carpath :: "codecs \<Rightarrow> ShardObjectID \<Rightarrow> string" where
  "canonical_carpath X src =
     ''auto/carpark-prod-0/'' @ cid_toString X (cid src) @ ''/'' @ cid_toString X (cid src) @ ''.car''"

text \<open>The function that \<^verbatim>\<open>Parallel\<close> runs on a batch of rows.\<close>

definition rewrite_batch ::
  "codecs \<Rightarrow> dynenv \<Rightarrow> ShardObjectID \<Rightarrow> string \<Rightarrow> BlockIndexItem list \<Rightarrow> dynamo
     \<Rightarrow> dynamo \<times> (exn + nat)"
where
  "rewrite_batch X env src tn batch st =
    (let items = map (\<lambda>b. PutRequest (b\<lparr>carpath := canonical_carpath X src\<rparr>)) batch
     in case writeItems env tn items st of
          (st1, Inl e) \<Rightarrow> (st1, Inl e)
        | (st1, Inr u) \<Rightarrow>
            (let items = map (\<lambda>b. DeleteRequest (blockmultihash b) (carpath b)) batch
             in case writeItems env tn items st1 of
                  (st2, Inl e) \<Rightarrow> (st2, Inl e)
                | (st2, Inr u) \<Rightarrow> (st2, Inr (length batch))))"

text \<open>
  \<^verbatim>\<open>Batcher\<close>: \<^verbatim>\<open>transform\<close> appends the chunk to the batch and emits the batch when it
  has \<open>sz\<close> elements; \<^verbatim>\<open>flush\<close> emits a batch that is not empty.
\<close>

definition Batcher_transform :: "nat \<Rightarrow> 'a list \<Rightarrow> 'a \<Rightarrow> 'a list \<times> 'a list option" where
  "Batcher_transform sz batch chunk =
     (let batch' = batch @ [chunk]
      in if length batch' < sz then (batch', None) else ([], Some batch'))"

definition Batcher_flush :: "'a list \<Rightarrow> 'a list option" where
  "Batcher_flush batch = (if batch \<noteq> [] then Some batch else None)"

text \<open>
  The state of one run of \<open>index\<close>: the batches the two \<^verbatim>\<open>Batcher\<close>s hold, the counter
  \<^verbatim>\<open>total\<close>, and DynamoDB. The stages of the pipe run concurrently, \<^verbatim>\<open>Parallel\<close> with up
  to five batches in flight; the model runs them in the order of the data: a chunk goes
  down the pipe as far as it gets before the next one is read. A stage that throws errors
  the pipe, and \<open>Some e\<close> is that error.
\<close>

record run =
  mh_batch :: "MultihashDigest list"
  item_batch :: "BlockIndexItem list"
  total :: nat
  dyn :: dynamo

definition rewrite_stage ::
  "codecs \<Rightarrow> dynenv \<Rightarrow> ShardObjectID \<Rightarrow> string \<Rightarrow> BlockIndexItem list \<Rightarrow> run \<Rightarrow> run \<times> exn option"
where
  "rewrite_stage X env src tn batch r =
    (case rewrite_batch X env src tn batch (dyn r) of
       (d, Inl e) \<Rightarrow> (r\<lparr>dyn := d\<rparr>, Some e)
     | (d, Inr updated) \<Rightarrow> (r\<lparr>total := total r + updated, dyn := d\<rparr>, None))"

definition push_item ::
  "codecs \<Rightarrow> dynenv \<Rightarrow> ShardObjectID \<Rightarrow> string \<Rightarrow> BlockIndexItem \<Rightarrow> run \<Rightarrow> run \<times> exn option"
where
  "push_item X env src tn item r =
    (case Batcher_transform 25 (item_batch r) item of
       (b, None) \<Rightarrow> (r\<lparr>item_batch := b\<rparr>, None)
     | (b, Some batch) \<Rightarrow> rewrite_stage X env src tn batch (r\<lparr>item_batch := b\<rparr>))"

fun push_items ::
  "codecs \<Rightarrow> dynenv \<Rightarrow> ShardObjectID \<Rightarrow> string \<Rightarrow> BlockIndexItem list \<Rightarrow> run \<Rightarrow> run \<times> exn option"
where
  "push_items X env src tn [] r = (r, None)"
| "push_items X env src tn (item # items) r =
    (case push_item X env src tn item r of
       (r', Some e) \<Rightarrow> (r', Some e)
     | (r', None) \<Rightarrow> push_items X env src tn items r')"

text \<open>The transform that looks a batch of multihashes up at the legacy carpath.\<close>

definition fetch_stage ::
  "codecs \<Rightarrow> dynenv \<Rightarrow> ShardObjectID \<Rightarrow> string \<Rightarrow> MultihashDigest list \<Rightarrow> run \<Rightarrow> run \<times> exn option"
where
  "fetch_stage X env src tn batch r =
    (case batch_get env tn
            (map (\<lambda>multihash. (base58btc_encode X (multihash_bytes X multihash), legacy_carpath src))
               batch) (dyn r) of
       (d, Inl e) \<Rightarrow> (r\<lparr>dyn := d\<rparr>, Some e)
     | (d, Inr items) \<Rightarrow> push_items X env src tn items (r\<lparr>dyn := d\<rparr>))"

definition push_multihash ::
  "codecs \<Rightarrow> dynenv \<Rightarrow> ShardObjectID \<Rightarrow> string \<Rightarrow> MultihashDigest \<Rightarrow> run \<Rightarrow> run \<times> exn option"
where
  "push_multihash X env src tn multihash r =
    (case Batcher_transform 100 (mh_batch r) multihash of
       (b, None) \<Rightarrow> (r\<lparr>mh_batch := b\<rparr>, None)
     | (b, Some batch) \<Rightarrow> fetch_stage X env src tn batch (r\<lparr>mh_batch := b\<rparr>))"

fun push_multihashes ::
  "codecs \<Rightarrow> dynenv \<Rightarrow> ShardObjectID \<Rightarrow> string \<Rightarrow> MultihashDigest list \<Rightarrow> run \<Rightarrow> run \<times> exn option"
where
  "push_multihashes X env src tn [] r = (r, None)"
| "push_multihashes X env src tn (m # ms) r =
    (case push_multihash X env src tn m r of
       (r', Some e) \<Rightarrow> (r', Some e)
     | (r', None) \<Rightarrow> push_multihashes X env src tn ms r')"

text \<open>The source closed: the \<^verbatim>\<open>flush\<close> of each \<^verbatim>\<open>Batcher\<close>, in the order of the pipe.\<close>

definition flush_pipe ::
  "codecs \<Rightarrow> dynenv \<Rightarrow> ShardObjectID \<Rightarrow> string \<Rightarrow> run \<Rightarrow> run \<times> exn option"
where
  "flush_pipe X env src tn r =
    (case (case Batcher_flush (mh_batch r) of
             None \<Rightarrow> (r\<lparr>mh_batch := []\<rparr>, None)
           | Some batch \<Rightarrow> fetch_stage X env src tn batch (r\<lparr>mh_batch := []\<rparr>)) of
       (r1, Some e) \<Rightarrow> (r1, Some e)
     | (r1, None) \<Rightarrow>
         (case Batcher_flush (item_batch r1) of
            None \<Rightarrow> (r1\<lparr>item_batch := []\<rparr>, None)
          | Some batch \<Rightarrow> rewrite_stage X env src tn batch (r1\<lparr>item_batch := []\<rparr>)))"

text \<open>
  \<open>index\<close>. The result is the history of S3 requests, DynamoDB after the run, and the
  response or the error the promise rejects with. A source that errors errors the pipe
  after the chunks it delivered, and nothing is flushed.
\<close>

definition index ::
  "codecs \<Rightarrow> s3env \<Rightarrow> dynenv \<Rightarrow> ShardObjectID \<Rightarrow> TableID \<Rightarrow> s3req list \<Rightarrow> dynamo
     \<Rightarrow> s3req list \<times> dynamo \<times> (exn + response)"
where
  "index X s3 env src dest h st =
    (case shardMultihashes X s3 src h of
       (h', Inl e) \<Rightarrow> (h', st, Inl e)
     | (h', Inr multihashes) \<Rightarrow>
         (case push_multihashes X env src (tableName dest) (fst multihashes)
                 \<lparr>mh_batch = [], item_batch = [], total = 0, dyn = st\<rparr> of
            (r, Some e) \<Rightarrow> (h', dyn r, Inl e)
          | (r, None) \<Rightarrow>
              (case snd multihashes of
                 Some f \<Rightarrow> (h', dyn r, Inl (EnvError f))
               | None \<Rightarrow>
                   (case flush_pipe X env src (tableName dest) r of
                      (r', Some e) \<Rightarrow> (h', dyn r', Inl e)
                    | (r', None) \<Rightarrow>
                        (h', dyn r', Inr \<lparr>statusCode = 200, body = OkUpdated (total r')\<rparr>)))))"

section \<open>Reading a history of requests\<close>

text \<open>The request that \<open>uploadPart\<close> sends for part \<open>n\<close> with body \<open>b\<close>.\<close>

definition part_request :: "'h libs \<Rightarrow> 'a ObjectID_scheme \<Rightarrow> string \<Rightarrow> nat \<Rightarrow> bytes \<Rightarrow> s3req" where
  "part_request L dest uid n b =
     (s3Client dest,
      UploadPart uid n (bucket dest) (key dest) b (length b) (base64 L (sha256 L b)))"

fun is_PutObject :: "s3cmd \<Rightarrow> bool" where
  "is_PutObject (PutObject b k bd n c) = True"
| "is_PutObject cmd = False"

fun is_UploadPart :: "s3cmd \<Rightarrow> bool" where
  "is_UploadPart (UploadPart u n b k bd l c) = True"
| "is_UploadPart cmd = False"

fun is_Abort :: "s3cmd \<Rightarrow> bool" where
  "is_Abort (AbortMultipartUpload b k u) = True"
| "is_Abort cmd = False"

fun is_Complete :: "s3cmd \<Rightarrow> bool" where
  "is_Complete (CompleteMultipartUpload b k u ps) = True"
| "is_Complete cmd = False"

text \<open>The cid that the multipart sink compares with the asserted one at \<^verbatim>\<open>close\<close>.\<close>

definition sink_cid :: "'h libs \<Rightarrow> 'h \<Rightarrow> Link" where
  "sink_cid L hs = Link_create CAR_CODEC (Digest_create sha256_code (hash_digest L hs))"






text \<open>
  The UploadPart requests of a history, in its order, each with its PartNumber, Body,
  ContentLength and ChecksumSHA256.
\<close>

record uploaded =
  up_PartNumber :: nat
  up_Body :: bytes
  up_ContentLength :: nat
  up_ChecksumSHA256 :: string

fun upload_of :: "s3req \<Rightarrow> uploaded list" where
  "upload_of (c, UploadPart u n b k bd l cs) =
     [\<lparr>up_PartNumber = n, up_Body = bd, up_ContentLength = l, up_ChecksumSHA256 = cs\<rparr>]"
| "upload_of (c, cmd) = []"

definition uploads :: "s3req list \<Rightarrow> uploaded list" where
  "uploads t = concat (map upload_of t)"

text \<open>
  Reading the events of DynamoDB. \<open>resend e\<close> is what \<^verbatim>\<open>writeItems\<close> sends after the
  attempt \<open>e\<close> failed: the unprocessed items it came back with, or the same items when it
  was rejected. In a \<open>retry_chain\<close> every event after the first is a BatchWriteItem of what
  the event before it leaves to resend.
\<close>

fun resend :: "dynevent \<Rightarrow> WriteRequest list" where
  "resend (BatchWriteItem tn xs, UnprocessedItems u) = u"
| "resend (BatchWriteItem tn xs, Rejected f) = xs"
| "resend e = []"

fun retry_chain :: "string \<Rightarrow> dynevent list \<Rightarrow> bool" where
  "retry_chain tn [] = True"
| "retry_chain tn [e] = True"
| "retry_chain tn (e # e' # es) = (fst e' = BatchWriteItem tn (resend e) \<and> retry_chain tn (e' # es))"

text \<open>The requests of a write event, and the keys of the rows it asks to put and to delete.\<close>

fun written :: "dynevent \<Rightarrow> WriteRequest list" where
  "written (BatchWriteItem tn xs, res) = xs"
| "written e = []"

fun put_key :: "WriteRequest \<Rightarrow> rowkey list" where
  "put_key (PutRequest item) = [(blockmultihash item, carpath item)]"
| "put_key (DeleteRequest m c) = []"

fun delete_key :: "WriteRequest \<Rightarrow> rowkey list" where
  "delete_key (DeleteRequest m c) = [(m, c)]"
| "delete_key (PutRequest item) = []"

fun request_key :: "WriteRequest \<Rightarrow> rowkey" where
  "request_key (PutRequest item) = (blockmultihash item, carpath item)"
| "request_key (DeleteRequest m c) = (m, c)"

text \<open>The keys of a read event and the rows it returned.\<close>

fun read_keys :: "dynevent \<Rightarrow> rowkey list" where
  "read_keys (BatchGetItem tn ks, res) = ks"
| "read_keys e = []"

fun fetched :: "dynevent \<Rightarrow> BlockIndexItem list" where
  "fetched (c, Responses items) = items"
| "fetched e = []"

text \<open>
  \<open>row_of src t b\<close>: \<open>b\<close> is the row that the table \<open>t\<close> holds for its multihash at the
  legacy carpath of the shard. \<open>row_done X src t b\<close>: in \<open>t\<close> the row \<open>b\<close> has been rewritten,
  it is at the canonical carpath with its offset and length and no longer at the legacy one.
\<close>

definition row_of :: "ShardObjectID \<Rightarrow> table \<Rightarrow> BlockIndexItem \<Rightarrow> bool" where
  "row_of src t b \<longleftrightarrow>
     carpath b = legacy_carpath src \<and>
     t (blockmultihash b, legacy_carpath src) = Some (offset b, length' b)"

definition row_done :: "codecs \<Rightarrow> ShardObjectID \<Rightarrow> table \<Rightarrow> BlockIndexItem \<Rightarrow> bool" where
  "row_done X src t b \<longleftrightarrow>
     t (blockmultihash b, canonical_carpath X src) = Some (offset b, length' b) \<and>
     t (blockmultihash b, legacy_carpath src) = None"

text \<open>The key that the reindexer looks a multihash up with.\<close>

definition legacy_key :: "codecs \<Rightarrow> ShardObjectID \<Rightarrow> MultihashDigest \<Rightarrow> rowkey" where
  "legacy_key X src multihash =
     (base58btc_encode X (multihash_bytes X multihash), legacy_carpath src)"

text \<open>What a request leaves at its key.\<close>

fun request_value :: "WriteRequest \<Rightarrow> (nat \<times> nat) option" where
  "request_value (PutRequest item) = Some (offset item, length' item)"
| "request_value (DeleteRequest m c) = None"

text \<open>
  The keys looked up and the rows returned in a sequence of events, in order; the events
  that are writes.
\<close>

definition lookups :: "dynevent list \<Rightarrow> rowkey list" where
  "lookups evs = concat (map read_keys evs)"

definition fetched_rows :: "dynevent list \<Rightarrow> BlockIndexItem list" where
  "fetched_rows evs = concat (map fetched evs)"

fun write_event :: "dynevent \<Rightarrow> bool" where
  "write_event (BatchWriteItem tn xs, UnprocessedItems u) = True"
| "write_event (BatchWriteItem tn xs, Rejected f) = True"
| "write_event e = False"

text \<open>
  \<open>get_ok\<close>: a read is of the table \<open>tn\<close>, for the legacy keys of 1 to 100 multihashes.
  \<open>from_rows\<close>: every request of a write is the put of a row of \<open>rows\<close> under the canonical
  carpath, or the delete of such a row.
\<close>

definition get_ok :: "codecs \<Rightarrow> ShardObjectID \<Rightarrow> string \<Rightarrow> dynevent \<Rightarrow> bool" where
  "get_ok X src tn e \<longleftrightarrow>
     (\<forall>tn' ks. fst e = BatchGetItem tn' ks \<longrightarrow>
        tn' = tn \<and> (\<exists>batch. ks = map (legacy_key X src) batch \<and> batch \<noteq> [] \<and> length batch \<le> 100))"

definition from_rows :: "codecs \<Rightarrow> ShardObjectID \<Rightarrow> BlockIndexItem set \<Rightarrow> dynevent \<Rightarrow> bool" where
  "from_rows X src rows e \<longleftrightarrow>
     (\<forall>q\<in>set (written e). \<exists>b\<in>rows.
        q = PutRequest (b\<lparr>carpath := canonical_carpath X src\<rparr>) \<or>
        q = DeleteRequest (blockmultihash b) (carpath b))"

text \<open>
  The invariants of the pipeline. \<open>progress\<close>: of the multihashes \<open>ms\<close> of the shard, all
  but those \<open>pending\<close> in the first batcher have been looked up, in order; the rows \<open>its\<close>
  wait in the second batcher and \<open>n\<close> rows are counted; every row returned was in the
  initial table at the legacy carpath and either waits or is rewritten. \<open>shaped\<close>: every
  event since \<open>e0\<close> is a well-formed read or a write made of rows that were returned.
\<close>

definition progress ::
  "codecs \<Rightarrow> ShardObjectID \<Rightarrow> string \<Rightarrow> dynamo \<Rightarrow> MultihashDigest list \<Rightarrow> MultihashDigest list
     \<Rightarrow> BlockIndexItem list \<Rightarrow> dynamo \<Rightarrow> nat \<Rightarrow> bool"
where
  "progress X src tn st0 ms pending its d n \<longleftrightarrow>
     (\<exists>evs. events d = events st0 @ evs \<and>
        lookups evs @ map (legacy_key X src) pending = map (legacy_key X src) ms \<and>
        n + length its = length (fetched_rows evs) \<and>
        (\<forall>b\<in>set (fetched_rows evs). row_of src (tables st0 tn) b \<and>
           (b \<in> set its \<or> row_done X src (tables d tn) b)) \<and>
        (\<forall>b\<in>set its. row_of src (tables st0 tn) b) \<and>
        (\<forall>m. tables d tn (m, legacy_carpath src) = None \<or>
             tables d tn (m, legacy_carpath src) = tables st0 tn (m, legacy_carpath src)))"

definition shaped ::
  "codecs \<Rightarrow> ShardObjectID \<Rightarrow> string \<Rightarrow> dynevent list \<Rightarrow> dynamo \<Rightarrow> BlockIndexItem set \<Rightarrow> bool"
where
  "shaped X src tn e0 d waiting \<longleftrightarrow>
     (\<exists>evs. events d = e0 @ evs \<and>
        (\<forall>e\<in>set evs. get_ok X src tn e \<and> from_rows X src (set (fetched_rows evs)) e) \<and>
        waiting \<subseteq> set (fetched_rows evs))"

section \<open>Example environment\<close>

text \<open>
  A concrete instance of the library functions, used to run the model on examples: the
  hasher state is the bytes fed so far, and the digest is their first 32 bytes, padded
  with zeros. It satisfies \<open>sha256_contract\<close>.
\<close>

definition example_libs :: "bytes libs" where
  "example_libs = \<lparr>createHash = [], hash_update = (\<lambda>h c. h @ c),
     hash_digest = (\<lambda>h. take 32 (h @ replicate 32 0)),
     base64 = map (\<lambda>b. char_of (unat b)),
     link_toString = (\<lambda>c. map (\<lambda>b. char_of (unat b)) (mh_digest (cid_multihash c)))\<rparr>"

text \<open>A shard of three bytes in two chunks, its cid, and the places of a copy.\<close>

definition example_chunks :: "bytes list" where
  "example_chunks = [[1, 2], [3]]"

definition example_src :: ShardObjectID where
  "example_src = \<lparr>region = ''us-west-2'', bucket = ''dotstorage-prod-0'', key = ''complete/x.car'',
     endpoint = None, credentials = None, cid = sink_cid example_libs [1, 2, 3]\<rparr>"

definition example_dest :: ObjectID where
  "example_dest = \<lparr>region = ''auto'', bucket = ''carpark'', key = ''x/x.car'',
     endpoint = Some ''https://dest'', credentials = Some (''id'', ''secret'')\<rparr>"






definition example_source :: "nat \<Rightarrow> ShardSource" where
  "example_source n =
     ShardObjectID.extend example_src (ShardSource.fields n (example_chunks, None))"

text \<open>
  Three stores. The first accepts every request and serves the example shard; the second
  answers HEAD with 404 and accepts the rest; the third answers HEAD with 403.
\<close>

definition example_out :: s3out where
  "example_out = \<lparr>Body = Some (example_chunks, None), ContentLength = Some 3,
     UploadId = Some ''upload-1'', ETag = Some ''etag''\<rparr>"

definition store_accepting :: s3env where
  "store_accepting h q = Inr example_out"



text \<open>
  Libraries for the reindexer in which each chunk of a body is one entry of the side
  index, or one block of the CAR, with the chunk as its digest.
\<close>

definition example_codecs :: codecs where
  "example_codecs = \<lparr>base58btc_encode = map (\<lambda>b. char_of (unat b)),
     multihash_bytes = mh_digest,
     cid_toString = (\<lambda>c. map (\<lambda>b. char_of (unat b)) (mh_digest (cid_multihash c))),
     MultihashIndexSortedReader = (\<lambda>s. (map (\<lambda>c. (Digest_create 0x12 c, 0)) (fst s), snd s)),
     CARReaderStream = (\<lambda>s. (map (\<lambda>c. \<lparr>blk_cid = Link_create 0x55 (Digest_create 0x12 c),
         blk_offset = 0, blk_length = length c\<rparr>) (fst s), snd s))\<rparr>"

text \<open>
  A store without side indexes (a GET of a key ending in \<^verbatim>\<open>.idx\<close> is answered with 404)
  and a store that answers every GET with 403.
\<close>

definition store_no_index :: s3env where
  "store_no_index h q =
     (case snd q of
        GetObject b k \<Rightarrow> if suffix ''.idx'' k then Inl (Some 404, ''NoSuchKey'') else Inr example_out
      | _ \<Rightarrow> Inr example_out)"

definition store_no_access :: s3env where
  "store_no_access h q =
     (case snd q of GetObject b k \<Rightarrow> Inl (Some 403, ''AccessDenied'') | _ \<Rightarrow> Inr example_out)"

text \<open>
  A block index table \<^verbatim>\<open>blocks\<close> with two rows for one multihash: one at the legacy carpath
  of the example shard and one at the carpath of another object. One DynamoDB processes
  every request; the other leaves the requests of the first write of a run unprocessed
  and processes every later request.
\<close>

definition example_table :: table where
  "example_table =
     [([CHR 0x01, CHR 0x02], ''us-west-2/dotstorage-prod-0/complete/x.car'') \<mapsto> (10, 20),
      ([CHR 0x01, CHR 0x02], ''us-west-2/dotstorage-prod-0/raw/u/root/x.car'') \<mapsto> (10, 20)]"

definition example_dynamo :: dynamo where
  "example_dynamo = \<lparr>tables = (\<lambda>tn. if tn = ''blocks'' then example_table else Map.empty), events = []\<rparr>"

definition dynamo_processing :: dynenv where
  "dynamo_processing = \<lparr>get_answer = (\<lambda>h tn ks. (\<lambda>k. False, None)),
     write_answer = (\<lambda>h tn items. (\<lambda>r. False, None))\<rparr>"

definition dynamo_throttling :: dynenv where
  "dynamo_throttling = \<lparr>get_answer = (\<lambda>h tn ks. (\<lambda>k. False, None)),
     write_answer = (\<lambda>h tn items. (\<lambda>r. h = [], None))\<rparr>"

definition example_tableID :: TableID where
  "example_tableID = \<lparr>tableName = ''blocks'', table_endpoint = None, table_credentials = None\<rparr>"

definition example_row :: BlockIndexItem where
  "example_row = \<lparr>blockmultihash = [CHR 0x01, CHR 0x02],
     carpath = ''us-west-2/dotstorage-prod-0/complete/x.car'', offset = 10, length' = 20\<rparr>"

section \<open>Properties of the hasher\<close>

lemma foldl_hash_update:
  assumes "sha256_contract L"
  shows "foldl (hash_update L) h chunks = hash_update L h (concat chunks)"
  using assms
proof (induction chunks arbitrary: h)
  case Nil
  then show ?case by (simp add: sha256_contract_def)
next
  case (Cons c cs)
  then show ?case by (simp add: sha256_contract_def)
qed

lemma streamed_digest:
  assumes "sha256_contract L"
  shows "hash_digest L (foldl (hash_update L) (createHash L) chunks) = sha256 L (concat chunks)"
  by (simp add: foldl_hash_update [OF assms] sha256_def)

lemma sha256_length:
  assumes "sha256_contract L"
  shows "length (sha256 L bs) = 32"
  using assms by (simp add: sha256_contract_def sha256_def)

lemma example_libs_contract: "sha256_contract example_libs"
  by (auto simp: sha256_contract_def example_libs_def)

text \<open>
  C4. When the request is valid and the source object's body \<open>B\<close> is fetched as the
  chunks of a stream that closes, the hash handler answers 200 with the cid of version 1
  and codec 0x0202 whose multihash has code 0x12, size 32 and digest the sha256 of the
  concatenated chunks, although the hasher was fed chunk by chunk.
\<close>

theorem hash_handler_cid:
  assumes "sha256_contract L"
    and "params ''region'' = Some r" and "r = ''us-east-2'' \<or> r = ''us-west-2''"
    and "params ''bucket'' = Some b" and "prefix ''dotstorage'' b"
    and "params ''key'' = Some k" and "suffix ''.car'' k"
    and "getObject r b k = Inr res" and "Body res = Some (chunks, None)"
  shows "hash_handler L getObject params =
     Inr \<lparr>statusCode = 200, body = OkCid (link_toString L
       \<lparr>cid_version = 1, cid_code = 0x0202, cid_multihash =
          \<lparr>mh_code = 0x12, mh_size = 32, mh_digest = sha256 L (concat chunks)\<rparr>\<rparr>)\<rparr>"
proof -
  have nonempty: "r \<noteq> []" "b \<noteq> []" "k \<noteq> []"
    using assms(3,5,7) by (auto simp: suffix_def)
  have digest: "hash_digest L (foldl (hash_update L) (createHash L) chunks) = sha256 L (concat chunks)"
    by (rule streamed_digest [OF assms(1)])
  show ?thesis
    using assms(2-9) nonempty
    by (auto simp: hash_handler_def missing_def Let_def digest sha256_length [OF assms(1)]
        Digest_create_def Link_create_def CAR_CODEC_def sha256_code_def)
qed

theorem hash_handler_cid_witness:
  "hash_handler example_libs
     (\<lambda>r b k. Inr \<lparr>Body = Some ([[1, 2], [3]], None), ContentLength = Some 3, UploadId = None, ETag = None\<rparr>)
     [''region'' \<mapsto> ''us-west-2'', ''bucket'' \<mapsto> ''dotstorage-prod-0'', ''key'' \<mapsto> ''complete/x.car''] =
     Inr \<lparr>statusCode = 200, body = OkCid (link_toString example_libs
       \<lparr>cid_version = 1, cid_code = 0x0202, cid_multihash =
          \<lparr>mh_code = 0x12, mh_size = 32, mh_digest = sha256 example_libs (concat [[1, 2], [3]])\<rparr>\<rparr>)\<rparr>"
  using hash_handler_cid [OF example_libs_contract,
      of "[''region'' \<mapsto> ''us-west-2'', ''bucket'' \<mapsto> ''dotstorage-prod-0'', ''key'' \<mapsto> ''complete/x.car'']"
         "''us-west-2''" "''dotstorage-prod-0''" "''complete/x.car''"
         "\<lambda>r b k. Inr \<lparr>Body = Some ([[1, 2], [3]], None), ContentLength = Some 3, UploadId = None, ETag = None\<rparr>"
         "\<lparr>Body = Some ([[1, 2], [3]], None), ContentLength = Some 3, UploadId = None, ETag = None\<rparr>"
         "[[1, 2], [3]]"]
  by (simp add: prefix_def suffix_def)

lemma send_eq:
  "send env c cmd h = (h @ [(c, cmd)], case env h (c, cmd) of Inl f \<Rightarrow> Inl (EnvError f) | Inr out \<Rightarrow> Inr out)"
  by (simp add: send_def)











lemma is_UploadPart_request [simp]:
  "is_UploadPart (snd (part_request L dest uid n b))"
  "\<not> is_Abort (snd (part_request L dest uid n b))"
  "\<not> is_Complete (snd (part_request L dest uid n b))"
  "\<not> is_PutObject (snd (part_request L dest uid n b))"
  by (simp_all add: part_request_def)





lemma writeCAR_small:
  assumes "src_size src < maxPutSize options"
  shows "writeCAR L env src dest options h =
     (h @ [(s3Client dest, PutObject (bucket dest) (key dest) (StreamBody (src_body src))
             (Some (src_size src)) (Some (base64 L (mh_digest (cid_multihash (cid src))))))],
      case env h (s3Client dest, PutObject (bucket dest) (key dest) (StreamBody (src_body src))
             (Some (src_size src)) (Some (base64 L (mh_digest (cid_multihash (cid src)))))) of
        Inl f \<Rightarrow> Inl (EnvError f) | Inr res \<Rightarrow> Inr ())"
  using assms by (simp add: writeCAR_def send_eq base64pad_encode_def split: sum.splits)





text \<open>
  C10. On the single PUT path the result of \<open>writeCAR\<close> does not depend on the hasher
  or on the rendering of cids (they can be replaced by anything), and \<open>writeCAR\<close> never
  fails with an error of its own making: a failure is the store's. Hence a run of
  \<open>writeCAR\<close> that fails with the local error \<^verbatim>\<open>integrity check failed\<close> is on the
  multipart path.
\<close>

theorem single_put_has_no_local_check:
  "(src_size src < maxPutSize options \<longrightarrow>
      writeCAR L env src dest options h =
        writeCAR (L\<lparr>createHash := c, hash_update := u, hash_digest := d, link_toString := ts\<rparr>)
          env src dest options h \<and>
      (\<forall>m. snd (writeCAR L env src dest options h) \<noteq> Inl (Error m))) \<and>
   (snd (writeCAR L env src dest options h) = Inl (Error ''integrity check failed'') \<longrightarrow>
      maxPutSize options \<le> src_size src)"
proof -
  have a: "writeCAR L env src dest options h =
        writeCAR (L\<lparr>createHash := c, hash_update := u, hash_digest := d, link_toString := ts\<rparr>)
          env src dest options h" if "src_size src < maxPutSize options"
    using that by (simp add: writeCAR_small)
  have b: "snd (writeCAR L env src dest options h) \<noteq> Inl (Error m)"
    if "src_size src < maxPutSize options" for m
    using that by (simp add: writeCAR_small split: sum.splits)
  show ?thesis using a b by (metis not_le_imp_less)
qed


lemma example_source_simps:
  "src_size (example_source n) = n" "src_body (example_source n) = (example_chunks, None)"
  "cid (example_source n) = cid example_src"
  "ShardObjectID.extend example_src (ShardSource.fields n (example_chunks, None)) = example_source n"
  by (simp_all add: example_source_def ShardObjectID.extend_def ShardSource.fields_def
      ShardSource.defs ShardObjectID.defs)


theorem single_put_has_no_local_check_witness:
  "writeCAR example_libs store_accepting (example_source 3) example_dest None [] =
     writeCAR (example_libs\<lparr>createHash := [0], hash_update := (\<lambda>h c. h), hash_digest := (\<lambda>h. []),
                 link_toString := (\<lambda>c. [])\<rparr>)
       store_accepting (example_source 3) example_dest None [] \<and>
   snd (writeCAR example_libs store_accepting (example_source 3) example_dest None []) \<noteq>
     Inl (Error ''integrity check failed'')"
proof -
  have small: "src_size (example_source 3) < maxPutSize None"
    by (simp add: example_source_simps maxPutSize_def MAX_PUT_SIZE_def)
  show ?thesis
    using single_put_has_no_local_check [where src = "example_source 3" and options = None
      and L = example_libs and env = store_accepting and dest = example_dest and h = "[]"
      and c = "[0]" and u = "\<lambda>h c. h" and d = "\<lambda>h. []" and ts = "\<lambda>c. []"] small
    by blast
qed




















lemma uploads_append: "uploads (t @ t') = uploads t @ uploads t'"
  by (simp add: uploads_def)














section \<open>Properties of the block index writes\<close>

lemma batch_write_eq:
  "batch_write env tn items st =
     (\<lparr>tables = (tables st)(tn := foldl apply_write (tables st tn)
          (filter (\<lambda>r. \<not> fst (write_answer env (events st) tn items) r) items)),
       events = events st @ [(BatchWriteItem tn items,
          case snd (write_answer env (events st) tn items) of
            Some f \<Rightarrow> Rejected f
          | None \<Rightarrow> UnprocessedItems (filter (fst (write_answer env (events st) tn items)) items))]\<rparr>,
      case snd (write_answer env (events st) tn items) of
        Some f \<Rightarrow> Inl (EnvError f)
      | None \<Rightarrow> Inr (filter (fst (write_answer env (events st) tn items)) items))"
  by (simp add: batch_write_def Let_def split: prod.splits option.splits)

text \<open>One attempt of \<open>retry_write\<close>, as an event and the items left to send.\<close>

lemma batch_write_cases:
  obtains (rejected) f st' where
      "batch_write env tn items st = (st', Inl (EnvError f))"
      "events st' = events st @ [(BatchWriteItem tn items, Rejected f)]"
    | (answered) u st' where
      "batch_write env tn items st = (st', Inr u)"
      "events st' = events st @ [(BatchWriteItem tn items, UnprocessedItems u)]"
      "set u \<subseteq> set items"
proof (cases "snd (write_answer env (events st) tn items)")
  case None
  show ?thesis
    by (rule answered [of "fst (batch_write env tn items st)"
          "filter (fst (write_answer env (events st) tn items)) items"])
       (simp_all add: batch_write_eq None)
next
  case (Some f)
  show ?thesis
    by (rule rejected [of "fst (batch_write env tn items st)" f]) (simp_all add: batch_write_eq Some)
qed

lemma retry_write_events:
  "\<exists>evs. events (fst (retry_write n env tn items st)) = events st @ evs \<and>
      evs \<noteq> [] \<and> length evs \<le> Suc n \<and>
      fst (hd evs) = BatchWriteItem tn items \<and> retry_chain tn evs \<and>
      (\<forall>e\<in>set evs. \<exists>xs. fst e = BatchWriteItem tn xs \<and> set xs \<subseteq> set items) \<and>
      (snd (retry_write n env tn items st) = Inr () \<longleftrightarrow> snd (last evs) = UnprocessedItems []) \<and>
      (\<forall>e\<in>set (butlast evs). snd e \<noteq> UnprocessedItems []) \<and>
      (\<forall>x. snd (retry_write n env tn items st) = Inl x \<longrightarrow> length evs = Suc n \<and>
         (\<forall>f. snd (last evs) = Rejected f \<longrightarrow> x = EnvError f) \<and>
         (\<forall>u. snd (last evs) = UnprocessedItems u \<longrightarrow> x = UnprocessedError (length u)))"
proof (induction n arbitrary: items st)
  case 0
  show ?case
  proof (cases rule: batch_write_cases [of env tn items st])
    case (rejected f st')
    then show ?thesis
      by (intro exI [of _ "[(BatchWriteItem tn items, Rejected f)]"]) simp
  next
    case (answered u st')
    then show ?thesis
      by (intro exI [of _ "[(BatchWriteItem tn items, UnprocessedItems u)]"]) simp
  qed
next
  case (Suc n)
  have step: ?case
    if bw: "events st' = events st @ [e]" and e: "fst e = BatchWriteItem tn items"
      and re: "resend e = items'" and sub: "set items' \<subseteq> set items"
      and ne: "snd e \<noteq> UnprocessedItems []"
      and run: "retry_write (Suc n) env tn items st = retry_write n env tn items' st'"
    for st' e items'
  proof -
    obtain evs where evs: "events (fst (retry_write n env tn items' st')) = events st' @ evs"
        "evs \<noteq> []" "length evs \<le> Suc n" "fst (hd evs) = BatchWriteItem tn items'"
        "retry_chain tn evs"
        "\<forall>e\<in>set evs. \<exists>xs. fst e = BatchWriteItem tn xs \<and> set xs \<subseteq> set items'"
        "snd (retry_write n env tn items' st') = Inr () \<longleftrightarrow> snd (last evs) = UnprocessedItems []"
        "\<forall>e\<in>set (butlast evs). snd e \<noteq> UnprocessedItems []"
        "\<forall>x. snd (retry_write n env tn items' st') = Inl x \<longrightarrow> length evs = Suc n \<and>
         (\<forall>f. snd (last evs) = Rejected f \<longrightarrow> x = EnvError f) \<and>
         (\<forall>u. snd (last evs) = UnprocessedItems u \<longrightarrow> x = UnprocessedError (length u))"
      using Suc.IH [of items' st'] by blast
    obtain e' es where es: "evs = e' # es" using evs(2) by (cases evs) auto
    have chain: "retry_chain tn (e # evs)" using evs(4,5) re es by simp
    have subs: "\<forall>x\<in>set (e # evs). \<exists>xs. fst x = BatchWriteItem tn xs \<and> set xs \<subseteq> set items"
      using evs(6) e sub by auto
    have bl: "\<forall>x\<in>set (butlast (e # evs)). snd x \<noteq> UnprocessedItems []"
      using evs(8) ne es by auto
    show ?thesis
      apply (rule exI [of _ "e # evs"])
      unfolding run
      using evs(1,3,7,9) bw e chain subs bl es by auto
  qed
  show ?case
  proof (cases rule: batch_write_cases [of env tn items st])
    case (rejected f st')
    show ?thesis
      by (rule step [of st' "(BatchWriteItem tn items, Rejected f)" items])
         (simp_all add: rejected)
  next
    case (answered u st')
    show ?thesis
    proof (cases "u = []")
      case True
      then show ?thesis using answered
        by (intro exI [of _ "[(BatchWriteItem tn items, UnprocessedItems u)]"]) simp
    next
      case False
      show ?thesis
        by (rule step [of st' "(BatchWriteItem tn items, UnprocessedItems u)" u])
           (simp_all add: answered False)
    qed
  qed
qed

lemma foldl_apply_write_frame:
  "k \<notin> request_key ` set xs \<Longrightarrow> foldl apply_write t xs k = t k"
proof (induction xs arbitrary: t)
  case Nil
  then show ?case by simp
next
  case (Cons x xs)
  then have "apply_write t x k = t k" by (cases x) auto
  then show ?case using Cons by simp
qed

lemma batch_write_frame:
  assumes "k \<notin> request_key ` set items"
  shows "tables (fst (batch_write env tn items st)) tn' k = tables st tn' k"
proof -
  have "k \<notin> request_key ` set (filter (\<lambda>r. \<not> fst (write_answer env (events st) tn items) r) items)"
    using assms by auto
  then show ?thesis
    by (simp add: batch_write_eq foldl_apply_write_frame)
qed

lemma batch_write_unprocessed:
  "batch_write env tn items st = (st', Inr u) \<Longrightarrow> set u \<subseteq> set items"
  by (auto simp: batch_write_eq split: option.splits)

lemma retry_write_frame:
  assumes "k \<notin> request_key ` set items"
  shows "tables (fst (retry_write n env tn items st)) tn' k = tables st tn' k"
  using assms
proof (induction n arbitrary: items st)
  case 0
  then show ?case
    using batch_write_frame [of k items env tn st tn']
    by (cases "batch_write env tn items st") (auto split: sum.splits)
next
  case (Suc n)
  obtain st' r where bw: "batch_write env tn items st = (st', r)"
    by (cases "batch_write env tn items st")
  have f: "tables st' tn' k = tables st tn' k"
    using batch_write_frame [of k items env tn st tn'] Suc.prems bw by simp
  show ?case
  proof (cases r)
    case (Inl e)
    then show ?thesis using bw f Suc.IH [of items st'] Suc.prems by simp
  next
    case (Inr u)
    have "k \<notin> request_key ` set u"
      using batch_write_unprocessed [of env tn items st st' u] bw Inr Suc.prems by auto
    then show ?thesis using bw f Inr Suc.IH [of u st'] by simp
  qed
qed

lemma rewrite_batch_frame:
  assumes "snd k \<noteq> canonical_carpath X src" and "snd k \<notin> carpath ` set batch"
  shows "tables (fst (rewrite_batch X env src tn batch st)) tn' k = tables st tn' k"
proof -
  let ?puts = "map (\<lambda>b. PutRequest (b\<lparr>carpath := canonical_carpath X src\<rparr>)) batch"
  let ?dels = "map (\<lambda>b. DeleteRequest (blockmultihash b) (carpath b)) batch"
  have p: "k \<notin> request_key ` set ?puts" using assms(1) by auto
  have d: "k \<notin> request_key ` set ?dels" using assms(2) by force
  obtain st1 r1 where w1: "writeItems env tn ?puts st = (st1, r1)"
    by (cases "writeItems env tn ?puts st")
  have f1: "tables st1 tn' k = tables st tn' k"
    using retry_write_frame [OF p, of 2 env tn st tn'] w1 by (simp add: writeItems_def)
  obtain st2 r2 where w2: "writeItems env tn ?dels st1 = (st2, r2)"
    by (cases "writeItems env tn ?dels st1")
  have f2: "tables st2 tn' k = tables st tn' k"
    using retry_write_frame [OF d, of 2 env tn st1 tn'] f1 w2 by (simp add: writeItems_def)
  show ?thesis
    using w1 w2 f1 f2 by (simp add: rewrite_batch_def Let_def split: sum.splits)
qed

lemma batch_get_tables: "tables (fst (batch_get env tn keys st)) = tables st"
  by (simp add: batch_get_def Let_def split: prod.splits option.splits)

lemma batch_get_items:
  assumes "batch_get env tn keys st = (st', Inr items)" and "item \<in> set items"
  shows "(blockmultihash item, carpath item) \<in> set keys \<and>
         tables st tn (blockmultihash item, carpath item) = Some (offset item, length' item)"
proof -
  obtain k where k: "k \<in> set keys" "item_at (tables st tn) k = Some item"
    using assms
    by (auto simp: batch_get_def Let_def map_filter_def split: prod.splits option.splits)
  then show ?thesis
    by (cases k) (auto simp: item_at_def split: option.splits)
qed

text \<open>The rows waiting in the second batcher were all read at the legacy carpath.\<close>

lemma rewrite_stage_keeps:
  assumes "\<forall>b\<in>set batch. carpath b = legacy_carpath src"
    and "snd k \<noteq> canonical_carpath X src" and "snd k \<noteq> legacy_carpath src"
  shows "tables (dyn (fst (rewrite_stage X env src tn batch r))) tn' k = tables (dyn r) tn' k \<and>
         item_batch (fst (rewrite_stage X env src tn batch r)) = item_batch r"
proof -
  have "snd k \<notin> carpath ` set batch" using assms(1,3) by auto
  then have "tables (fst (rewrite_batch X env src tn batch (dyn r))) tn' k = tables (dyn r) tn' k"
    using rewrite_batch_frame [OF assms(2), of batch env tn "dyn r" tn'] by simp
  then show ?thesis
    by (cases "rewrite_batch X env src tn batch (dyn r)")
       (auto simp: rewrite_stage_def split: sum.splits)
qed

lemma push_item_keeps:
  assumes "\<forall>b\<in>set (item_batch r). carpath b = legacy_carpath src"
    and "carpath item = legacy_carpath src"
    and "snd k \<noteq> canonical_carpath X src" and "snd k \<noteq> legacy_carpath src"
  shows "tables (dyn (fst (push_item X env src tn item r))) tn' k = tables (dyn r) tn' k \<and>
         (\<forall>b\<in>set (item_batch (fst (push_item X env src tn item r))). carpath b = legacy_carpath src)"
proof (cases "length (item_batch r @ [item]) < 25")
  case True
  then show ?thesis using assms(1,2) by (simp add: push_item_def Batcher_transform_def Let_def)
next
  case False
  have b: "\<forall>b\<in>set (item_batch r @ [item]). carpath b = legacy_carpath src"
    using assms(1,2) by simp
  show ?thesis
    using False rewrite_stage_keeps [OF b assms(3,4), of env tn "r\<lparr>item_batch := []\<rparr>" tn']
    by (simp add: push_item_def Batcher_transform_def Let_def)
qed

lemma push_items_keeps:
  assumes "\<forall>b\<in>set (item_batch r). carpath b = legacy_carpath src"
    and "\<forall>b\<in>set items. carpath b = legacy_carpath src"
    and "snd k \<noteq> canonical_carpath X src" and "snd k \<noteq> legacy_carpath src"
  shows "tables (dyn (fst (push_items X env src tn items r))) tn' k = tables (dyn r) tn' k \<and>
         (\<forall>b\<in>set (item_batch (fst (push_items X env src tn items r))). carpath b = legacy_carpath src)"
  using assms(1,2)
proof (induction items arbitrary: r)
  case Nil
  then show ?case by simp
next
  case (Cons item items)
  obtain r' x where p: "push_item X env src tn item r = (r', x)"
    by (cases "push_item X env src tn item r")
  have k: "tables (dyn r') tn' k = tables (dyn r) tn' k"
      "\<forall>b\<in>set (item_batch r'). carpath b = legacy_carpath src"
    using push_item_keeps [OF Cons.prems(1) _ assms(3,4), of item env tn tn'] Cons.prems(2) p
    by auto
  show ?case
  proof (cases x)
    case None
    then show ?thesis using p k Cons.IH [of r'] Cons.prems(2) by simp
  next
    case (Some e)
    then show ?thesis using p k by simp
  qed
qed

lemma fetch_stage_keeps:
  assumes "\<forall>b\<in>set (item_batch r). carpath b = legacy_carpath src"
    and "snd k \<noteq> canonical_carpath X src" and "snd k \<noteq> legacy_carpath src"
  shows "tables (dyn (fst (fetch_stage X env src tn batch r))) tn' k = tables (dyn r) tn' k \<and>
         (\<forall>b\<in>set (item_batch (fst (fetch_stage X env src tn batch r))). carpath b = legacy_carpath src)"
proof -
  let ?keys = "map (\<lambda>multihash. (base58btc_encode X (multihash_bytes X multihash), legacy_carpath src)) batch"
  obtain d x where g: "batch_get env tn ?keys (dyn r) = (d, x)"
    by (cases "batch_get env tn ?keys (dyn r)")
  have t: "tables d = tables (dyn r)" using batch_get_tables [of env tn ?keys "dyn r"] g by simp
  show ?thesis
  proof (cases x)
    case (Inl e)
    then show ?thesis using g t assms(1) by (simp add: fetch_stage_def)
  next
    case (Inr items)
    have "\<forall>b\<in>set items. carpath b = legacy_carpath src"
      using batch_get_items [of env tn ?keys "dyn r" d items] g Inr by auto
    then show ?thesis
      using push_items_keeps [of "r\<lparr>dyn := d\<rparr>" src items k X env tn tn'] assms g Inr t
      by (simp add: fetch_stage_def)
  qed
qed

lemma push_multihash_keeps:
  assumes "\<forall>b\<in>set (item_batch r). carpath b = legacy_carpath src"
    and "snd k \<noteq> canonical_carpath X src" and "snd k \<noteq> legacy_carpath src"
  shows "tables (dyn (fst (push_multihash X env src tn m r))) tn' k = tables (dyn r) tn' k \<and>
         (\<forall>b\<in>set (item_batch (fst (push_multihash X env src tn m r))). carpath b = legacy_carpath src)"
  using fetch_stage_keeps [of "r\<lparr>mh_batch := []\<rparr>" src k X env tn "mh_batch r @ [m]" tn'] assms
  by (simp add: push_multihash_def Batcher_transform_def Let_def)

lemma push_multihashes_keeps:
  assumes "\<forall>b\<in>set (item_batch r). carpath b = legacy_carpath src"
    and "snd k \<noteq> canonical_carpath X src" and "snd k \<noteq> legacy_carpath src"
  shows "tables (dyn (fst (push_multihashes X env src tn ms r))) tn' k = tables (dyn r) tn' k \<and>
         (\<forall>b\<in>set (item_batch (fst (push_multihashes X env src tn ms r))). carpath b = legacy_carpath src)"
  using assms(1)
proof (induction ms arbitrary: r)
  case Nil
  then show ?case by simp
next
  case (Cons m ms)
  obtain r' x where p: "push_multihash X env src tn m r = (r', x)"
    by (cases "push_multihash X env src tn m r")
  have k: "tables (dyn r') tn' k = tables (dyn r) tn' k"
      "\<forall>b\<in>set (item_batch r'). carpath b = legacy_carpath src"
    using push_multihash_keeps [OF Cons.prems assms(2,3), of env tn m tn'] p by auto
  show ?case
  proof (cases x)
    case None
    then show ?thesis using p k Cons.IH [of r'] by simp
  next
    case (Some e)
    then show ?thesis using p k by simp
  qed
qed

lemma flush_pipe_keeps:
  assumes "\<forall>b\<in>set (item_batch r). carpath b = legacy_carpath src"
    and "snd k \<noteq> canonical_carpath X src" and "snd k \<noteq> legacy_carpath src"
  shows "tables (dyn (fst (flush_pipe X env src tn r))) tn' k = tables (dyn r) tn' k"
proof -
  let ?first = "case Batcher_flush (mh_batch r) of
             None \<Rightarrow> (r\<lparr>mh_batch := []\<rparr>, None)
           | Some batch \<Rightarrow> fetch_stage X env src tn batch (r\<lparr>mh_batch := []\<rparr>)"
  obtain r1 x where f: "?first = (r1, x)" by (cases ?first)
  have k: "tables (dyn r1) tn' k = tables (dyn r) tn' k"
      "\<forall>b\<in>set (item_batch r1). carpath b = legacy_carpath src"
    using fetch_stage_keeps [of "r\<lparr>mh_batch := []\<rparr>" src k X env tn "mh_batch r" tn'] assms f
    by (auto simp: Batcher_flush_def split: if_splits)
  show ?thesis
  proof (cases x)
    case (Some e)
    then show ?thesis using f k by (simp add: flush_pipe_def)
  next
    case None
    show ?thesis
      using rewrite_stage_keeps [OF k(2) assms(2,3), of env tn "r1\<lparr>item_batch := []\<rparr>" tn'] f k None
      by (simp add: flush_pipe_def Batcher_flush_def)
  qed
qed

text \<open>
  C2. A run of \<open>index\<close> on a shard, whatever the object store and DynamoDB answer and
  whether it succeeds or fails, leaves every row of every table whose carpath is neither
  the legacy carpath \<^verbatim>\<open>{src.region}/{src.bucket}/{src.key}\<close> nor the canonical carpath
  \<^verbatim>\<open>auto/carpark-prod-0/{src.cid}/{src.cid}.car\<close> as it was: the same offset and length if
  the row was there, absent if it was not. The blockmultihash of the row is arbitrary, so
  it may be one of the shard's.
\<close>

theorem index_leaves_other_rows:
  "\<forall>tn k. snd k \<noteq> legacy_carpath src \<and> snd k \<noteq> canonical_carpath X src \<longrightarrow>
     tables (fst (snd (index X s3 env src dest h st))) tn k = tables st tn k"
proof (intro allI impI)
  fix tn and k :: rowkey
  assume a: "snd k \<noteq> legacy_carpath src \<and> snd k \<noteq> canonical_carpath X src"
  let ?r0 = "\<lparr>mh_batch = [], item_batch = [], total = 0, dyn = st\<rparr>"
  show "tables (fst (snd (index X s3 env src dest h st))) tn k = tables st tn k"
  proof (cases "shardMultihashes X s3 src h")
    case (Pair h' res)
    show ?thesis
    proof (cases res)
      case (Inl e)
      then show ?thesis using Pair by (simp add: index_def)
    next
      case (Inr ms)
      obtain r x where p: "push_multihashes X env src (tableName dest) (fst ms) ?r0 = (r, x)"
        by (cases "push_multihashes X env src (tableName dest) (fst ms) ?r0")
      have k: "tables (dyn r) tn k = tables st tn k"
          "\<forall>b\<in>set (item_batch r). carpath b = legacy_carpath src"
        using push_multihashes_keeps [of ?r0 src k X env "tableName dest" "fst ms" tn] a p by auto
      obtain r' x' where f: "flush_pipe X env src (tableName dest) r = (r', x')"
        by (cases "flush_pipe X env src (tableName dest) r")
      have k': "tables (dyn r') tn k = tables st tn k"
        using flush_pipe_keeps [OF k(2), of k X env "tableName dest" tn] a f k(1) by simp
      show ?thesis
        using Pair Inr p f k k' by (simp add: index_def split: option.splits)
    qed
  qed
qed

lemma foldl_applied:
  assumes pres: "\<forall>t r r'. r \<in> S \<longrightarrow> r' \<in> S \<longrightarrow> P r t \<longrightarrow> P r (apply_write t r')"
    and est: "\<forall>t r. r \<in> S \<longrightarrow> P r (apply_write t r)"
    and "K \<subseteq> S" "set xs \<subseteq> S" "\<forall>r\<in>K. P r t"
  shows "\<forall>r\<in>K \<union> set xs. P r (foldl apply_write t xs)"
  using assms(3-5)
proof (induction xs arbitrary: t K)
  case Nil
  then show ?case by simp
next
  case (Cons x xs)
  have x: "x \<in> S" using Cons.prems(2) by simp
  have "\<forall>r\<in>insert x K. P r (apply_write t x)"
    using Cons.prems(1,3) x pres est by blast
  then have "\<forall>r\<in>insert x K \<union> set xs. P r (foldl apply_write (apply_write t x) xs)"
    using Cons.IH [of "insert x K" "apply_write t x"] Cons.prems(1,2) x by simp
  then show ?case by simp
qed

lemma batch_write_applied:
  assumes pres: "\<forall>t r r'. r \<in> S \<longrightarrow> r' \<in> S \<longrightarrow> P r t \<longrightarrow> P r (apply_write t r')"
    and est: "\<forall>t r. r \<in> S \<longrightarrow> P r (apply_write t r)"
    and "K \<subseteq> S" "set items \<subseteq> S" "\<forall>r\<in>K. P r (tables st tn)"
    and "batch_write env tn items st = (st', res)"
  shows "\<forall>r\<in>K. P r (tables st' tn)"
    and "\<And>u. res = Inr u \<Longrightarrow> \<forall>r\<in>set items - set u. P r (tables st' tn)"
proof -
  let ?un = "fst (write_answer env (events st) tn items)"
  let ?done = "filter (\<lambda>r. \<not> ?un r) items"
  have t': "tables st' tn = foldl apply_write (tables st tn) ?done"
    using assms(6) by (auto simp: batch_write_eq)
  have all: "\<forall>r\<in>K \<union> set ?done. P r (tables st' tn)"
    unfolding t' by (rule foldl_applied [where S = S, OF pres est]) (use assms(3-5) in auto)
  show "\<forall>r\<in>K. P r (tables st' tn)" using all by simp
  show "\<forall>r\<in>set items - set u. P r (tables st' tn)" if "res = Inr u" for u
  proof -
    have "u = filter ?un items"
      using assms(6) that by (auto simp: batch_write_eq split: option.splits)
    then show ?thesis using all by auto
  qed
qed

lemma retry_write_applied:
  assumes pres: "\<forall>t r r'. r \<in> S \<longrightarrow> r' \<in> S \<longrightarrow> P r t \<longrightarrow> P r (apply_write t r')"
    and est: "\<forall>t r. r \<in> S \<longrightarrow> P r (apply_write t r)"
    and "K \<subseteq> S" "set items \<subseteq> S" "\<forall>r\<in>K. P r (tables st tn)"
    and "retry_write n env tn items st = (st', Inr ())"
  shows "\<forall>r\<in>K \<union> set items. P r (tables st' tn)"
  using assms(3-6)
proof (induction n arbitrary: items st K)
  case 0
  obtain st1 res where bw: "batch_write env tn items st = (st1, res)"
    by (cases "batch_write env tn items st")
  have ok: "res = Inr []" "st1 = st'"
    using "0.prems"(4) bw by (auto split: sum.splits if_splits)
  show ?case
    using batch_write_applied [where S = S and P = P, OF pres est "0.prems"(1,2,3) bw] ok by auto
next
  case (Suc n)
  obtain st1 res where bw: "batch_write env tn items st = (st1, res)"
    by (cases "batch_write env tn items st")
  note ap = batch_write_applied [where S = S and P = P, OF pres est Suc.prems(1,2,3) bw]
  show ?case
  proof (cases res)
    case (Inl e)
    have "retry_write n env tn items st1 = (st', Inr ())"
      using Suc.prems(4) bw Inl by simp
    then show ?thesis
      by (rule Suc.IH [OF Suc.prems(1,2) ap(1)])
  next
    case (Inr u)
    show ?thesis
    proof (cases "u = []")
      case True
      then have "st1 = st'" using Suc.prems(4) bw Inr by simp
      then show ?thesis using ap(1) ap(2) [OF Inr] True by auto
    next
      case False
      have run: "retry_write n env tn u st1 = (st', Inr ())"
        using Suc.prems(4) bw Inr False by simp
      have u: "set u \<subseteq> set items" using batch_write_unprocessed [of env tn items st st1 u] bw Inr by simp
      let ?K = "K \<union> (set items - set u)"
      have k1: "?K \<subseteq> S" using Suc.prems(1,2) by auto
      have k2: "set u \<subseteq> S" using u Suc.prems(2) by auto
      have k3: "\<forall>r\<in>?K. P r (tables st1 tn)" using ap(1) ap(2) [OF Inr] by auto
      have "\<forall>r\<in>?K \<union> set u. P r (tables st' tn)"
        by (rule Suc.IH [OF k1 k2 k3 run])
      then show ?thesis by auto
    qed
  qed
qed

lemma apply_write_at: "apply_write t r (request_key r) = request_value r"
  by (cases r) auto

lemma apply_write_other: "k \<noteq> request_key r \<Longrightarrow> apply_write t r k = t k"
  by (cases r) auto

lemma foldl_deletes:
  assumes "\<forall>r\<in>set xs. request_value r = None"
  shows "foldl apply_write t xs k = None \<or> foldl apply_write t xs k = t k"
  using assms
proof (induction xs arbitrary: t)
  case Nil
  then show ?case by simp
next
  case (Cons x xs)
  have "apply_write t x k = None \<or> apply_write t x k = t k"
    using Cons.prems apply_write_at [of t x] apply_write_other [of k x t]
    by (cases "k = request_key x") auto
  then show ?case using Cons.IH [of "apply_write t x"] Cons.prems by auto
qed

lemma batch_write_deletes:
  assumes "\<forall>r\<in>set items. request_value r = None"
  shows "tables (fst (batch_write env tn items st)) tn' k = None \<or>
         tables (fst (batch_write env tn items st)) tn' k = tables st tn' k"
  using foldl_deletes [of "filter (\<lambda>r. \<not> fst (write_answer env (events st) tn items) r) items"
      "tables st tn" k] assms
  by (auto simp: batch_write_eq)

lemma retry_write_deletes:
  assumes "\<forall>r\<in>set items. request_value r = None"
  shows "tables (fst (retry_write n env tn items st)) tn' k = None \<or>
         tables (fst (retry_write n env tn items st)) tn' k = tables st tn' k"
  using assms
proof (induction n arbitrary: items st)
  case 0
  then show ?case
    using batch_write_deletes [of items env tn st tn' k]
    by (cases "batch_write env tn items st") (auto split: sum.splits)
next
  case (Suc n)
  obtain st1 r where bw: "batch_write env tn items st = (st1, r)"
    by (cases "batch_write env tn items st")
  have f: "tables st1 tn' k = None \<or> tables st1 tn' k = tables st tn' k"
    using batch_write_deletes [of items env tn st tn' k] Suc.prems bw by simp
  show ?case
  proof (cases r)
    case (Inl e)
    then show ?thesis using bw f Suc.IH [of items st1] Suc.prems by auto
  next
    case (Inr u)
    have "\<forall>r\<in>set u. request_value r = None"
      using batch_write_unprocessed [of env tn items st st1 u] bw Inr Suc.prems by auto
    then show ?thesis using bw f Inr Suc.IH [of u st1] by auto
  qed
qed

lemma rewrite_batch_done:
  assumes ne: "canonical_carpath X src \<noteq> legacy_carpath src"
    and rows: "\<forall>b\<in>set batch. row_of src t0 b"
    and run: "rewrite_batch X env src tn batch st = (st', Inr n)"
    and old: "\<forall>m. tables st tn (m, legacy_carpath src) = None \<or>
                 tables st tn (m, legacy_carpath src) = t0 (m, legacy_carpath src)"
  shows "n = length batch"
    and "\<forall>b\<in>set batch. row_done X src (tables st' tn) b"
    and "\<forall>b. row_of src t0 b \<longrightarrow> row_done X src (tables st tn) b \<longrightarrow> row_done X src (tables st' tn) b"
    and "\<forall>m. tables st' tn (m, legacy_carpath src) = None \<or>
             tables st' tn (m, legacy_carpath src) = t0 (m, legacy_carpath src)"
proof -
  let ?C = "canonical_carpath X src"
  let ?L = "legacy_carpath src"
  let ?put = "\<lambda>b. PutRequest (b\<lparr>carpath := ?C\<rparr>)"
  let ?del = "\<lambda>b. DeleteRequest (blockmultihash b) (carpath b)"
  let ?P = "\<lambda>r t. t (request_key r) = request_value r"
  obtain st1 where w1: "retry_write 2 env tn (map ?put batch) st = (st1, Inr ())"
    and w2: "retry_write 2 env tn (map ?del batch) st1 = (st', Inr ())"
    and n: "n = length batch"
    using run
    by (auto simp: rewrite_batch_def writeItems_def Let_def split: prod.splits sum.splits)
  show "n = length batch" by (rule n)
  \<comment> \<open>the put phase\<close>
  let ?S = "{?put b |b. row_of src t0 b}"
  let ?K = "{?put b |b. row_of src t0 b \<and> row_done X src (tables st tn) b}"
  have pres: "\<forall>t r r'. r \<in> ?S \<longrightarrow> r' \<in> ?S \<longrightarrow> ?P r t \<longrightarrow> ?P r (apply_write t r')"
    by (auto simp: row_of_def)
  have est: "\<forall>t r. r \<in> ?S \<longrightarrow> ?P r (apply_write t r)"
    by auto
  have all1: "\<forall>r\<in>?K \<union> set (map ?put batch). ?P r (tables st1 tn)"
    by (rule retry_write_applied [where S = ?S and P = ?P, OF pres est _ _ _ w1])
       (use rows in \<open>auto simp: row_done_def\<close>)
  have put1: "\<forall>b. row_of src t0 b \<and> (row_done X src (tables st tn) b \<or> b \<in> set batch) \<longrightarrow>
      tables st1 tn (blockmultihash b, ?C) = Some (offset b, length' b)"
  proof (intro allI impI)
    fix b
    assume "row_of src t0 b \<and> (row_done X src (tables st tn) b \<or> b \<in> set batch)"
    then have "?put b \<in> ?K \<union> set (map ?put batch)" by auto
    then have "?P (?put b) (tables st1 tn)" using all1 by blast
    then show "tables st1 tn (blockmultihash b, ?C) = Some (offset b, length' b)" by simp
  qed
  have leg1: "tables st1 tn (m, ?L) = tables st tn (m, ?L)" for m
  proof -
    have "(m, ?L) \<notin> request_key ` set (map ?put batch)" using ne by auto
    then show ?thesis using retry_write_frame [of "(m, ?L)" "map ?put batch" 2 env tn st tn] w1 by simp
  qed
  \<comment> \<open>the delete phase\<close>
  have dels: "map ?del batch = map (\<lambda>b. DeleteRequest (blockmultihash b) ?L) batch"
    using rows by (simp add: row_of_def)
  let ?S' = "{DeleteRequest m ?L |m. True}"
  let ?K' = "{DeleteRequest (blockmultihash b) ?L |b. row_done X src (tables st tn) b}"
  have pres': "\<forall>t r r'. r \<in> ?S' \<longrightarrow> r' \<in> ?S' \<longrightarrow> ?P r t \<longrightarrow> ?P r (apply_write t r')"
    by auto
  have est': "\<forall>t r. r \<in> ?S' \<longrightarrow> ?P r (apply_write t r)"
    by auto
  have all2: "\<forall>r\<in>?K' \<union> set (map ?del batch). ?P r (tables st' tn)"
    by (rule retry_write_applied [where S = ?S' and P = ?P, OF pres' est' _ _ _ w2])
       (use leg1 in \<open>auto simp: row_done_def dels\<close>)
  have del2: "\<forall>b. row_done X src (tables st tn) b \<or> b \<in> set batch \<longrightarrow>
      tables st' tn (blockmultihash b, ?L) = None"
  proof (intro allI impI)
    fix b
    assume "row_done X src (tables st tn) b \<or> b \<in> set batch"
    then have "DeleteRequest (blockmultihash b) ?L \<in> ?K' \<union> set (map ?del batch)"
      unfolding dels by auto
    then have "?P (DeleteRequest (blockmultihash b) ?L) (tables st' tn)" using all2 by blast
    then show "tables st' tn (blockmultihash b, ?L) = None" by simp
  qed
  have can2: "tables st' tn (m, ?C) = tables st1 tn (m, ?C)" for m
  proof -
    have "(m, ?C) \<notin> request_key ` set (map ?del batch)" unfolding dels using ne by auto
    then show ?thesis using retry_write_frame [of "(m, ?C)" "map ?del batch" 2 env tn st1 tn] w2 by simp
  qed
  show "\<forall>b\<in>set batch. row_done X src (tables st' tn) b"
    using put1 del2 can2 rows by (simp add: row_done_def)
  show "\<forall>b. row_of src t0 b \<longrightarrow> row_done X src (tables st tn) b \<longrightarrow> row_done X src (tables st' tn) b"
    using put1 del2 can2 by (simp add: row_done_def)
  show "\<forall>m. tables st' tn (m, ?L) = None \<or> tables st' tn (m, ?L) = t0 (m, ?L)"
  proof
    fix m
    have "\<forall>r\<in>set (map ?del batch). request_value r = None" by simp
    then have "tables st' tn (m, ?L) = None \<or> tables st' tn (m, ?L) = tables st1 tn (m, ?L)"
      using retry_write_deletes [of "map ?del batch" 2 env tn st1 tn "(m, ?L)"] w2 by simp
    then show "tables st' tn (m, ?L) = None \<or> tables st' tn (m, ?L) = t0 (m, ?L)"
      using leg1 [of m] old by auto
  qed
qed

lemma lookups_append [simp]: "lookups (a @ b) = lookups a @ lookups b"
  by (simp add: lookups_def)

lemma fetched_rows_append [simp]: "fetched_rows (a @ b) = fetched_rows a @ fetched_rows b"
  by (simp add: fetched_rows_def)

lemma lookups_Cons [simp]: "lookups (e # evs) = read_keys e @ lookups evs"
  by (simp add: lookups_def)

lemma fetched_rows_Cons [simp]: "fetched_rows (e # evs) = fetched e @ fetched_rows evs"
  by (simp add: fetched_rows_def)

lemma lookups_Nil [simp]: "lookups [] = []"
  by (simp add: lookups_def)

lemma fetched_rows_Nil [simp]: "fetched_rows [] = []"
  by (simp add: fetched_rows_def)

lemma write_event_quiet: "write_event e \<Longrightarrow> read_keys e = [] \<and> fetched e = [] \<and> get_ok X src tn e"
  by (cases e rule: write_event.cases) (auto simp: get_ok_def)

lemma writes_quiet:
  assumes "\<forall>e\<in>set evs. write_event e"
  shows "lookups evs = []" "fetched_rows evs = []" "\<forall>e\<in>set evs. get_ok X src tn e"
  using assms write_event_quiet by (auto simp: lookups_def fetched_rows_def)

lemma batch_write_writes:
  "\<exists>e. events (fst (batch_write env tn items st)) = events st @ [e] \<and> write_event e \<and>
       written e = items"
  by (cases "snd (write_answer env (events st) tn items)") (simp_all add: batch_write_eq)

lemma retry_write_writes:
  "\<exists>evs. events (fst (retry_write n env tn items st)) = events st @ evs \<and>
       (\<forall>e\<in>set evs. write_event e \<and> set (written e) \<subseteq> set items)"
proof (induction n arbitrary: items st)
  case 0
  obtain e where e: "events (fst (batch_write env tn items st)) = events st @ [e]"
      "write_event e \<and> set (written e) \<subseteq> set items"
    using batch_write_writes [of env tn items st] by auto
  have "events (fst (retry_write 0 env tn items st)) = events st @ [e]"
    using e(1) by (cases "batch_write env tn items st") (auto split: sum.splits)
  then show ?case using e(2) by (intro exI [of _ "[e]"]) simp
next
  case (Suc n)
  obtain st1 r where bw: "batch_write env tn items st = (st1, r)"
    by (cases "batch_write env tn items st")
  obtain e where e: "events st1 = events st @ [e]"
      "write_event e \<and> set (written e) \<subseteq> set items"
    using batch_write_writes [of env tn items st] bw by auto
  have more: ?case
    if eq: "retry_write (Suc n) env tn items st = retry_write n env tn items' st1"
      and sub: "set items' \<subseteq> set items" for items'
  proof -
    obtain evs where "events (fst (retry_write n env tn items' st1)) = events st1 @ evs"
        "\<forall>e\<in>set evs. write_event e \<and> set (written e) \<subseteq> set items'"
      using Suc.IH [of items' st1] by blast
    then show ?thesis unfolding eq using e sub by (intro exI [of _ "[e] @ evs"]) auto
  qed
  show ?case
  proof (cases r)
    case (Inl x)
    then show ?thesis using more [of items] bw by simp
  next
    case (Inr u)
    show ?thesis
    proof (cases "u = []")
      case True
      then have "events (fst (retry_write (Suc n) env tn items st)) = events st @ [e]"
        using bw Inr e(1) by simp
      then show ?thesis using e(2) by (intro exI [of _ "[e]"]) simp
    next
      case False
      have "set u \<subseteq> set items"
        using batch_write_unprocessed [of env tn items st st1 u] bw Inr by simp
      then show ?thesis using more [of u] bw Inr False by simp
    qed
  qed
qed

lemma from_rows_mono: "from_rows X src rows e \<Longrightarrow> rows \<subseteq> rows' \<Longrightarrow> from_rows X src rows' e"
  unfolding from_rows_def by blast

lemma rewrite_batch_writes:
  "\<exists>evs. events (fst (rewrite_batch X env src tn batch st)) = events st @ evs \<and>
       (\<forall>e\<in>set evs. write_event e \<and> from_rows X src (set batch) e)"
proof -
  let ?puts = "map (\<lambda>b. PutRequest (b\<lparr>carpath := canonical_carpath X src\<rparr>)) batch"
  let ?dels = "map (\<lambda>b. DeleteRequest (blockmultihash b) (carpath b)) batch"
  obtain st1 r1 where w1: "retry_write 2 env tn ?puts st = (st1, r1)"
    by (cases "retry_write 2 env tn ?puts st")
  obtain e1 where e1: "events st1 = events st @ e1"
      "\<forall>e\<in>set e1. write_event e \<and> set (written e) \<subseteq> set ?puts"
    using retry_write_writes [of 2 env tn ?puts st] w1 by auto
  obtain st2 r2 where w2: "retry_write 2 env tn ?dels st1 = (st2, r2)"
    by (cases "retry_write 2 env tn ?dels st1")
  obtain e2 where e2: "events st2 = events st1 @ e2"
      "\<forall>e\<in>set e2. write_event e \<and> set (written e) \<subseteq> set ?dels"
    using retry_write_writes [of 2 env tn ?dels st1] w2 by auto
  have f1: "\<forall>e\<in>set e1. write_event e \<and> from_rows X src (set batch) e"
    using e1(2) unfolding from_rows_def by fastforce
  have f2: "\<forall>e\<in>set e2. write_event e \<and> from_rows X src (set batch) e"
    using e2(2) unfolding from_rows_def by fastforce
  show ?thesis
  proof (cases r1)
    case (Inl x)
    then have "events (fst (rewrite_batch X env src tn batch st)) = events st @ e1"
      using w1 e1(1) by (simp add: rewrite_batch_def writeItems_def)
    then show ?thesis using f1 by blast
  next
    case (Inr u)
    then have "events (fst (rewrite_batch X env src tn batch st)) = events st @ (e1 @ e2)"
      using w1 w2 e1(1) e2(1) by (simp add: rewrite_batch_def writeItems_def split: sum.splits)
    moreover have "\<forall>e\<in>set (e1 @ e2). write_event e \<and> from_rows X src (set batch) e"
      using f1 f2 by auto
    ultimately show ?thesis by blast
  qed
qed

lemma rewrite_batch_quiet:
  "\<exists>evs. events (fst (rewrite_batch X env src tn batch st)) = events st @ evs \<and>
       lookups evs = [] \<and> fetched_rows evs = []"
proof -
  obtain evs where evs: "events (fst (rewrite_batch X env src tn batch st)) = events st @ evs"
      "\<forall>e\<in>set evs. write_event e"
    using rewrite_batch_writes [of X env src tn batch st] by blast
  show ?thesis using evs(1) writes_quiet(1,2) [OF evs(2)] by blast
qed

lemma rewrite_batch_progress:
  assumes ne: "canonical_carpath X src \<noteq> legacy_carpath src"
    and p: "progress X src tn st0 ms pending (batch @ todo) st n"
    and run: "rewrite_batch X env src tn batch st = (st', Inr k)"
  shows "progress X src tn st0 ms pending todo st' (n + k)"
proof -
  let ?L = "legacy_carpath src"
  obtain evs where evs: "events st = events st0 @ evs"
      "lookups evs @ map (legacy_key X src) pending = map (legacy_key X src) ms"
      "n + length (batch @ todo) = length (fetched_rows evs)"
      "\<forall>b\<in>set (fetched_rows evs). row_of src (tables st0 tn) b \<and>
           (b \<in> set (batch @ todo) \<or> row_done X src (tables st tn) b)"
      "\<forall>b\<in>set (batch @ todo). row_of src (tables st0 tn) b"
      "\<forall>m. tables st tn (m, ?L) = None \<or> tables st tn (m, ?L) = tables st0 tn (m, ?L)"
    using p unfolding progress_def by blast
  have rows: "\<forall>b\<in>set batch. row_of src (tables st0 tn) b" using evs(5) by simp
  note d = rewrite_batch_done [OF ne rows run evs(6)]
  obtain evs' where evs': "events st' = events st @ evs'" "lookups evs' = []" "fetched_rows evs' = []"
    using rewrite_batch_quiet [of X env src tn batch st] run by auto
  have "events st' = events st0 @ (evs @ evs')" using evs(1) evs'(1) by simp
  moreover have "lookups (evs @ evs') @ map (legacy_key X src) pending = map (legacy_key X src) ms"
    using evs(2) evs'(2) by simp
  moreover have "n + k + length todo = length (fetched_rows (evs @ evs'))"
    using evs(3) evs'(3) d(1) by simp
  moreover have "\<forall>b\<in>set (fetched_rows (evs @ evs')). row_of src (tables st0 tn) b \<and>
           (b \<in> set todo \<or> row_done X src (tables st' tn) b)"
    using evs(4) evs'(3) d(2,3) by auto
  moreover have "\<forall>b\<in>set todo. row_of src (tables st0 tn) b" using evs(5) by simp
  ultimately show ?thesis unfolding progress_def using d(4) by blast
qed

lemma batch_get_progress:
  assumes p: "progress X src tn st0 ms batch its st n"
    and run: "batch_get env tn (map (legacy_key X src) batch) st = (st', Inr items)"
  shows "progress X src tn st0 ms [] (its @ items) st' n"
proof -
  let ?L = "legacy_carpath src"
  let ?keys = "map (legacy_key X src) batch"
  obtain evs where evs: "events st = events st0 @ evs"
      "lookups evs @ ?keys = map (legacy_key X src) ms"
      "n + length its = length (fetched_rows evs)"
      "\<forall>b\<in>set (fetched_rows evs). row_of src (tables st0 tn) b \<and>
           (b \<in> set its \<or> row_done X src (tables st tn) b)"
      "\<forall>b\<in>set its. row_of src (tables st0 tn) b"
      "\<forall>m. tables st tn (m, ?L) = None \<or> tables st tn (m, ?L) = tables st0 tn (m, ?L)"
    using p unfolding progress_def by blast
  have t: "tables st' = tables st" using batch_get_tables [of env tn ?keys st] run by simp
  have ev: "events st' = events st @ [(BatchGetItem tn ?keys, Responses items)]"
    using run by (auto simp: batch_get_def Let_def split: prod.splits option.splits)
  have new: "row_of src (tables st0 tn) b" if "b \<in> set items" for b
  proof -
    have k: "(blockmultihash b, carpath b) \<in> set ?keys"
      "tables st tn (blockmultihash b, carpath b) = Some (offset b, length' b)"
      using batch_get_items [OF run that] by auto
    have c: "carpath b = ?L" using k(1) by (auto simp: legacy_key_def)
    have "tables st tn (blockmultihash b, ?L) = None \<or>
        tables st tn (blockmultihash b, ?L) = tables st0 tn (blockmultihash b, ?L)"
      using evs(6) by blast
    then show ?thesis using k(2) c by (auto simp: row_of_def)
  qed
  let ?evs = "evs @ [(BatchGetItem tn ?keys, Responses items)]"
  have "events st' = events st0 @ ?evs" using evs(1) ev by simp
  moreover have "lookups ?evs @ map (legacy_key X src) [] = map (legacy_key X src) ms"
    using evs(2) by simp
  moreover have "n + length (its @ items) = length (fetched_rows ?evs)"
    using evs(3) by simp
  moreover have "\<forall>b\<in>set (fetched_rows ?evs). row_of src (tables st0 tn) b \<and>
           (b \<in> set (its @ items) \<or> row_done X src (tables st' tn) b)"
    using evs(4) new t by auto
  moreover have "\<forall>b\<in>set (its @ items). row_of src (tables st0 tn) b"
    using evs(5) new by auto
  moreover have "\<forall>m. tables st' tn (m, ?L) = None \<or> tables st' tn (m, ?L) = tables st0 tn (m, ?L)"
    using evs(6) t by simp
  ultimately show ?thesis unfolding progress_def by blast
qed

lemma rewrite_stage_progress:
  assumes ne: "canonical_carpath X src \<noteq> legacy_carpath src"
    and p: "progress X src tn st0 ms pending (batch @ todo) (dyn r) (total r)"
    and run: "rewrite_stage X env src tn batch r = (r', None)"
  shows "progress X src tn st0 ms pending todo (dyn r') (total r')"
    and "item_batch r' = item_batch r" and "mh_batch r' = mh_batch r"
proof -
  obtain d k where rb: "rewrite_batch X env src tn batch (dyn r) = (d, Inr k)"
    and r': "r' = r\<lparr>total := total r + k, dyn := d\<rparr>"
    using run by (auto simp: rewrite_stage_def split: prod.splits sum.splits)
  show "progress X src tn st0 ms pending todo (dyn r') (total r')"
    using rewrite_batch_progress [OF ne p rb] r' by simp
  show "item_batch r' = item_batch r" "mh_batch r' = mh_batch r" using r' by simp_all
qed

lemma push_item_progress:
  assumes ne: "canonical_carpath X src \<noteq> legacy_carpath src"
    and p: "progress X src tn st0 ms pending (item_batch r @ item # todo) (dyn r) (total r)"
    and run: "push_item X env src tn item r = (r', None)"
  shows "progress X src tn st0 ms pending (item_batch r' @ todo) (dyn r') (total r')"
    and "mh_batch r' = mh_batch r"
proof -
  show "progress X src tn st0 ms pending (item_batch r' @ todo) (dyn r') (total r')"
  proof (cases "length (item_batch r @ [item]) < 25")
    case True
    then have "r' = r\<lparr>item_batch := item_batch r @ [item]\<rparr>"
      using run by (simp add: push_item_def Batcher_transform_def Let_def)
    then show ?thesis using p by simp
  next
    case False
    then have rs: "rewrite_stage X env src tn (item_batch r @ [item]) (r\<lparr>item_batch := []\<rparr>) = (r', None)"
      using run by (simp add: push_item_def Batcher_transform_def Let_def)
    have p': "progress X src tn st0 ms pending ((item_batch r @ [item]) @ todo)
        (dyn (r\<lparr>item_batch := []\<rparr>)) (total (r\<lparr>item_batch := []\<rparr>))"
      using p by simp
    show ?thesis using rewrite_stage_progress [OF ne p' rs] by simp
  qed
  show "mh_batch r' = mh_batch r"
  proof (cases "length (item_batch r @ [item]) < 25")
    case True
    then show ?thesis using run by (auto simp: push_item_def Batcher_transform_def Let_def)
  next
    case False
    then have rs: "rewrite_stage X env src tn (item_batch r @ [item]) (r\<lparr>item_batch := []\<rparr>) = (r', None)"
      using run by (simp add: push_item_def Batcher_transform_def Let_def)
    then show ?thesis
      by (auto simp: rewrite_stage_def split: prod.splits sum.splits)
  qed
qed

lemma push_items_progress:
  assumes ne: "canonical_carpath X src \<noteq> legacy_carpath src"
    and p: "progress X src tn st0 ms pending (item_batch r @ items) (dyn r) (total r)"
    and run: "push_items X env src tn items r = (r', None)"
  shows "progress X src tn st0 ms pending (item_batch r') (dyn r') (total r') \<and>
         mh_batch r' = mh_batch r"
  using p run
proof (induction items arbitrary: r)
  case Nil
  then show ?case by simp
next
  case (Cons item items)
  obtain r1 where r1: "push_item X env src tn item r = (r1, None)"
    and rest: "push_items X env src tn items r1 = (r', None)"
    using Cons.prems(2) by (auto split: prod.splits option.splits)
  note s = push_item_progress [OF ne Cons.prems(1) r1]
  show ?case using Cons.IH [OF s(1) rest] s(2) by simp
qed

lemma fetch_stage_progress:
  assumes ne: "canonical_carpath X src \<noteq> legacy_carpath src"
    and p: "progress X src tn st0 ms batch (item_batch r) (dyn r) (total r)"
    and run: "fetch_stage X env src tn batch r = (r', None)"
  shows "progress X src tn st0 ms [] (item_batch r') (dyn r') (total r') \<and>
         mh_batch r' = mh_batch r"
proof -
  obtain d items where g: "batch_get env tn (map (legacy_key X src) batch) (dyn r) = (d, Inr items)"
    and rest: "push_items X env src tn items (r\<lparr>dyn := d\<rparr>) = (r', None)"
    using run
    by (auto simp: fetch_stage_def legacy_key_def [abs_def] split: prod.splits sum.splits)
  have "progress X src tn st0 ms [] (item_batch r @ items) d (total r)"
    by (rule batch_get_progress [OF p g])
  then have "progress X src tn st0 ms [] (item_batch (r\<lparr>dyn := d\<rparr>) @ items)
      (dyn (r\<lparr>dyn := d\<rparr>)) (total (r\<lparr>dyn := d\<rparr>))" by simp
  then show ?thesis using push_items_progress [OF ne _ rest] by simp
qed

lemma progress_next:
  assumes "progress X src tn st0 ms pending its d n"
  shows "progress X src tn st0 (ms @ [m]) (pending @ [m]) its d n"
  using assms unfolding progress_def by auto

lemma push_multihash_progress:
  assumes ne: "canonical_carpath X src \<noteq> legacy_carpath src"
    and p: "progress X src tn st0 ms (mh_batch r) (item_batch r) (dyn r) (total r)"
    and run: "push_multihash X env src tn m r = (r', None)"
  shows "progress X src tn st0 (ms @ [m]) (mh_batch r') (item_batch r') (dyn r') (total r')"
proof (cases "length (mh_batch r @ [m]) < 100")
  case True
  then have "r' = r\<lparr>mh_batch := mh_batch r @ [m]\<rparr>"
    using run by (simp add: push_multihash_def Batcher_transform_def Let_def)
  then show ?thesis using progress_next [OF p, of m] by simp
next
  case False
  then have fs: "fetch_stage X env src tn (mh_batch r @ [m]) (r\<lparr>mh_batch := []\<rparr>) = (r', None)"
    using run by (simp add: push_multihash_def Batcher_transform_def Let_def)
  have "progress X src tn st0 (ms @ [m]) (mh_batch r @ [m]) (item_batch (r\<lparr>mh_batch := []\<rparr>))
      (dyn (r\<lparr>mh_batch := []\<rparr>)) (total (r\<lparr>mh_batch := []\<rparr>))"
    using progress_next [OF p, of m] by simp
  then show ?thesis using fetch_stage_progress [OF ne _ fs] by simp
qed

lemma push_multihashes_progress:
  assumes ne: "canonical_carpath X src \<noteq> legacy_carpath src"
    and p: "progress X src tn st0 seen (mh_batch r) (item_batch r) (dyn r) (total r)"
    and run: "push_multihashes X env src tn ms r = (r', None)"
  shows "progress X src tn st0 (seen @ ms) (mh_batch r') (item_batch r') (dyn r') (total r')"
  using p run
proof (induction ms arbitrary: r seen)
  case Nil
  then show ?case by simp
next
  case (Cons m ms)
  obtain r1 where r1: "push_multihash X env src tn m r = (r1, None)"
    and rest: "push_multihashes X env src tn ms r1 = (r', None)"
    using Cons.prems(2) by (auto split: prod.splits option.splits)
  have "progress X src tn st0 (seen @ [m]) (mh_batch r1) (item_batch r1) (dyn r1) (total r1)"
    by (rule push_multihash_progress [OF ne Cons.prems(1) r1])
  then show ?case using Cons.IH [of "seen @ [m]" r1] rest by simp
qed

lemma flush_pipe_progress:
  assumes ne: "canonical_carpath X src \<noteq> legacy_carpath src"
    and p: "progress X src tn st0 ms (mh_batch r) (item_batch r) (dyn r) (total r)"
    and run: "flush_pipe X env src tn r = (r', None)"
  shows "progress X src tn st0 ms [] [] (dyn r') (total r')"
proof -
  let ?first = "case Batcher_flush (mh_batch r) of
             None \<Rightarrow> (r\<lparr>mh_batch := []\<rparr>, None)
           | Some batch \<Rightarrow> fetch_stage X env src tn batch (r\<lparr>mh_batch := []\<rparr>)"
  obtain r1 where f: "?first = (r1, None)"
    and rest: "(case Batcher_flush (item_batch r1) of
            None \<Rightarrow> (r1\<lparr>item_batch := []\<rparr>, None)
          | Some batch \<Rightarrow> rewrite_stage X env src tn batch (r1\<lparr>item_batch := []\<rparr>)) = (r', None)"
    using run by (auto simp: flush_pipe_def split: prod.splits option.splits)
  have p1: "progress X src tn st0 ms [] (item_batch r1) (dyn r1) (total r1)"
  proof (cases "mh_batch r = []")
    case True
    then have "r1 = r\<lparr>mh_batch := []\<rparr>" using f by (simp add: Batcher_flush_def)
    then show ?thesis using p True by simp
  next
    case False
    then have fs: "fetch_stage X env src tn (mh_batch r) (r\<lparr>mh_batch := []\<rparr>) = (r1, None)"
      using f by (simp add: Batcher_flush_def)
    have "progress X src tn st0 ms (mh_batch r) (item_batch (r\<lparr>mh_batch := []\<rparr>))
      (dyn (r\<lparr>mh_batch := []\<rparr>)) (total (r\<lparr>mh_batch := []\<rparr>))" using p by simp
    then show ?thesis using fetch_stage_progress [OF ne _ fs] by simp
  qed
  show ?thesis
  proof (cases "item_batch r1 = []")
    case True
    then have "r' = r1\<lparr>item_batch := []\<rparr>" using rest by (simp add: Batcher_flush_def)
    then show ?thesis using p1 True by simp
  next
    case False
    then have rs: "rewrite_stage X env src tn (item_batch r1) (r1\<lparr>item_batch := []\<rparr>) = (r', None)"
      using rest by (simp add: Batcher_flush_def)
    have "progress X src tn st0 ms [] (item_batch r1 @ [])
        (dyn (r1\<lparr>item_batch := []\<rparr>)) (total (r1\<lparr>item_batch := []\<rparr>))" using p1 by simp
    then show ?thesis using rewrite_stage_progress(1) [OF ne _ rs] by simp
  qed
qed

lemma shaped_less: "shaped X src tn e0 d waiting \<Longrightarrow> w \<subseteq> waiting \<Longrightarrow> shaped X src tn e0 d w"
  unfolding shaped_def by blast

lemma shaped_writes:
  assumes "shaped X src tn e0 d waiting" "events d' = events d @ evs"
    and "\<forall>e\<in>set evs. write_event e \<and> from_rows X src waiting e"
  shows "shaped X src tn e0 d' waiting"
proof -
  obtain evs0 where e0: "events d = e0 @ evs0"
      "\<forall>e\<in>set evs0. get_ok X src tn e \<and> from_rows X src (set (fetched_rows evs0)) e"
      "waiting \<subseteq> set (fetched_rows evs0)"
    using assms(1) unfolding shaped_def by blast
  have q: "fetched_rows evs = []" using writes_quiet(2) [of evs] assms(3) by blast
  have "events d' = e0 @ (evs0 @ evs)" using e0(1) assms(2) by simp
  moreover have "\<forall>e\<in>set (evs0 @ evs). get_ok X src tn e \<and>
      from_rows X src (set (fetched_rows (evs0 @ evs))) e"
    using e0(2,3) assms(3) q write_event_quiet [of _ X src tn] from_rows_mono [of X src waiting]
    by auto
  moreover have "waiting \<subseteq> set (fetched_rows (evs0 @ evs))" using e0(3) by auto
  ultimately show ?thesis unfolding shaped_def by blast
qed

lemma shaped_read:
  assumes "shaped X src tn e0 d waiting"
    and "events d' = events d @ [(BatchGetItem tn (map (legacy_key X src) batch), res)]"
    and "batch \<noteq> []" and "length batch \<le> 100"
  shows "shaped X src tn e0 d' (waiting \<union> set (fetched (BatchGetItem tn (map (legacy_key X src) batch), res)))"
proof -
  let ?e = "(BatchGetItem tn (map (legacy_key X src) batch), res)"
  obtain evs0 where e0: "events d = e0 @ evs0"
      "\<forall>e\<in>set evs0. get_ok X src tn e \<and> from_rows X src (set (fetched_rows evs0)) e"
      "waiting \<subseteq> set (fetched_rows evs0)"
    using assms(1) unfolding shaped_def by blast
  have g: "get_ok X src tn ?e" using assms(3,4) by (auto simp: get_ok_def)
  have f: "from_rows X src rows ?e" for rows by (simp add: from_rows_def)
  have "events d' = e0 @ (evs0 @ [?e])" using e0(1) assms(2) by simp
  moreover have "\<forall>e\<in>set (evs0 @ [?e]). get_ok X src tn e \<and>
      from_rows X src (set (fetched_rows (evs0 @ [?e]))) e"
    using e0(2) g f from_rows_mono [of X src "set (fetched_rows evs0)"] by auto
  moreover have "waiting \<union> set (fetched ?e) \<subseteq> set (fetched_rows (evs0 @ [?e]))"
    using e0(3) by auto
  ultimately show ?thesis unfolding shaped_def by blast
qed

lemma rewrite_stage_shaped:
  assumes "shaped X src tn e0 (dyn r) waiting" and "set batch \<subseteq> waiting"
  shows "shaped X src tn e0 (dyn (fst (rewrite_stage X env src tn batch r))) waiting \<and>
         mh_batch (fst (rewrite_stage X env src tn batch r)) = mh_batch r \<and>
         item_batch (fst (rewrite_stage X env src tn batch r)) = item_batch r"
proof -
  obtain d x where rb: "rewrite_batch X env src tn batch (dyn r) = (d, x)"
    by (cases "rewrite_batch X env src tn batch (dyn r)")
  obtain evs where evs: "events d = events (dyn r) @ evs"
      "\<forall>e\<in>set evs. write_event e \<and> from_rows X src (set batch) e"
    using rewrite_batch_writes [of X env src tn batch "dyn r"] rb by auto
  have "\<forall>e\<in>set evs. write_event e \<and> from_rows X src waiting e"
    using evs(2) assms(2) from_rows_mono by blast
  then have "shaped X src tn e0 d waiting"
    by (rule shaped_writes [OF assms(1) evs(1)])
  then show ?thesis using rb by (cases x) (simp_all add: rewrite_stage_def)
qed

lemma push_item_shaped:
  assumes "shaped X src tn e0 (dyn r) waiting" and "insert item (set (item_batch r)) \<subseteq> waiting"
  shows "shaped X src tn e0 (dyn (fst (push_item X env src tn item r))) waiting \<and>
         mh_batch (fst (push_item X env src tn item r)) = mh_batch r \<and>
         set (item_batch (fst (push_item X env src tn item r))) \<subseteq> waiting"
proof (cases "length (item_batch r @ [item]) < 25")
  case True
  then show ?thesis using assms by (simp add: push_item_def Batcher_transform_def Let_def)
next
  case False
  have "set (item_batch r @ [item]) \<subseteq> waiting" using assms(2) by simp
  then show ?thesis
    using False assms(1)
      rewrite_stage_shaped [of X src tn e0 "r\<lparr>item_batch := []\<rparr>" waiting "item_batch r @ [item]" env]
    by (simp add: push_item_def Batcher_transform_def Let_def)
qed

lemma push_items_shaped:
  assumes "shaped X src tn e0 (dyn r) waiting" and "set items \<union> set (item_batch r) \<subseteq> waiting"
  shows "shaped X src tn e0 (dyn (fst (push_items X env src tn items r))) waiting \<and>
         mh_batch (fst (push_items X env src tn items r)) = mh_batch r \<and>
         set (item_batch (fst (push_items X env src tn items r))) \<subseteq> waiting"
  using assms
proof (induction items arbitrary: r)
  case Nil
  then show ?case by simp
next
  case (Cons item items)
  obtain r1 x where p: "push_item X env src tn item r = (r1, x)"
    by (cases "push_item X env src tn item r")
  have s: "shaped X src tn e0 (dyn r1) waiting" "mh_batch r1 = mh_batch r"
      "set (item_batch r1) \<subseteq> waiting"
    using push_item_shaped [OF Cons.prems(1), of item env] Cons.prems(2) p by auto
  have "set items \<union> set (item_batch r1) \<subseteq> waiting" using s(3) Cons.prems(2) by auto
  then show ?case using p s Cons.IH [OF s(1)] by (cases x) simp_all
qed

lemma fetch_stage_shaped:
  assumes "shaped X src tn e0 (dyn r) (set (item_batch r))"
    and "batch \<noteq> []" and "length batch \<le> 100"
  shows "\<exists>waiting. shaped X src tn e0 (dyn (fst (fetch_stage X env src tn batch r))) waiting \<and>
         mh_batch (fst (fetch_stage X env src tn batch r)) = mh_batch r \<and>
         set (item_batch (fst (fetch_stage X env src tn batch r))) \<subseteq> waiting"
proof -
  let ?keys = "map (legacy_key X src) batch"
  have fs: "fetch_stage X env src tn batch r =
      (case batch_get env tn ?keys (dyn r) of
         (d, Inl e) \<Rightarrow> (r\<lparr>dyn := d\<rparr>, Some e)
       | (d, Inr items) \<Rightarrow> push_items X env src tn items (r\<lparr>dyn := d\<rparr>))"
    by (simp add: fetch_stage_def legacy_key_def [abs_def])
  obtain d x where g: "batch_get env tn ?keys (dyn r) = (d, x)"
    by (cases "batch_get env tn ?keys (dyn r)")
  show ?thesis
  proof (cases x)
    case (Inl e)
    obtain f where ev: "events d = events (dyn r) @ [(BatchGetItem tn ?keys, Rejected f)]"
      using g Inl by (auto simp: batch_get_def Let_def split: prod.splits option.splits)
    have "shaped X src tn e0 d (set (item_batch r))"
      using shaped_read [OF assms(1) ev assms(2,3)] by simp
    then show ?thesis unfolding fs using g Inl by (intro exI [of _ "set (item_batch r)"]) simp
  next
    case (Inr items)
    have ev: "events d = events (dyn r) @ [(BatchGetItem tn ?keys, Responses items)]"
      using g Inr by (auto simp: batch_get_def Let_def split: prod.splits option.splits)
    let ?w = "set (item_batch r) \<union> set items"
    have s: "shaped X src tn e0 (dyn (r\<lparr>dyn := d\<rparr>)) ?w"
      using shaped_read [OF assms(1) ev assms(2,3)] by simp
    have "set items \<union> set (item_batch (r\<lparr>dyn := d\<rparr>)) \<subseteq> ?w" by auto
    then show ?thesis
      unfolding fs using g Inr push_items_shaped [OF s, of items env]
      by (intro exI [of _ ?w]) simp
  qed
qed

lemma push_multihash_shaped:
  assumes "shaped X src tn e0 (dyn r) (set (item_batch r))" and "length (mh_batch r) < 100"
  shows "shaped X src tn e0 (dyn (fst (push_multihash X env src tn m r)))
            (set (item_batch (fst (push_multihash X env src tn m r)))) \<and>
         length (mh_batch (fst (push_multihash X env src tn m r))) < 100"
proof (cases "length (mh_batch r @ [m]) < 100")
  case True
  then show ?thesis using assms(1) by (simp add: push_multihash_def Batcher_transform_def Let_def)
next
  case False
  let ?r = "r\<lparr>mh_batch := []\<rparr>"
  have run: "push_multihash X env src tn m r = fetch_stage X env src tn (mh_batch r @ [m]) ?r"
    using False by (simp add: push_multihash_def Batcher_transform_def Let_def)
  have "length (mh_batch r @ [m]) \<le> 100" using assms(2) by simp
  then obtain waiting where
      "shaped X src tn e0 (dyn (fst (fetch_stage X env src tn (mh_batch r @ [m]) ?r))) waiting"
      "mh_batch (fst (fetch_stage X env src tn (mh_batch r @ [m]) ?r)) = mh_batch ?r"
      "set (item_batch (fst (fetch_stage X env src tn (mh_batch r @ [m]) ?r))) \<subseteq> waiting"
    using fetch_stage_shaped [of X src tn e0 ?r "mh_batch r @ [m]" env] assms(1) by auto
  then show ?thesis unfolding run using shaped_less by auto
qed

lemma push_multihashes_shaped:
  assumes "shaped X src tn e0 (dyn r) (set (item_batch r))" and "length (mh_batch r) < 100"
  shows "shaped X src tn e0 (dyn (fst (push_multihashes X env src tn ms r)))
            (set (item_batch (fst (push_multihashes X env src tn ms r)))) \<and>
         length (mh_batch (fst (push_multihashes X env src tn ms r))) < 100"
  using assms
proof (induction ms arbitrary: r)
  case Nil
  then show ?case by simp
next
  case (Cons m ms)
  obtain r1 x where p: "push_multihash X env src tn m r = (r1, x)"
    by (cases "push_multihash X env src tn m r")
  have s: "shaped X src tn e0 (dyn r1) (set (item_batch r1))" "length (mh_batch r1) < 100"
    using push_multihash_shaped [OF Cons.prems, of env m] p by auto
  show ?case using p s Cons.IH [OF s] by (cases x) simp_all
qed

lemma flush_pipe_shaped:
  assumes "shaped X src tn e0 (dyn r) (set (item_batch r))" and "length (mh_batch r) < 100"
  shows "\<exists>waiting. shaped X src tn e0 (dyn (fst (flush_pipe X env src tn r))) waiting"
proof -
  let ?first = "case Batcher_flush (mh_batch r) of
             None \<Rightarrow> (r\<lparr>mh_batch := []\<rparr>, None)
           | Some batch \<Rightarrow> fetch_stage X env src tn batch (r\<lparr>mh_batch := []\<rparr>)"
  obtain r1 x where f: "?first = (r1, x)" by (cases ?first)
  have "\<exists>waiting. shaped X src tn e0 (dyn r1) waiting \<and> set (item_batch r1) \<subseteq> waiting"
  proof (cases "mh_batch r = []")
    case True
    then show ?thesis using f assms(1) by (auto simp: Batcher_flush_def)
  next
    case False
    then show ?thesis
      using f assms fetch_stage_shaped [of X src tn e0 "r\<lparr>mh_batch := []\<rparr>" "mh_batch r" env]
      by (auto simp: Batcher_flush_def)
  qed
  then obtain waiting where s1: "shaped X src tn e0 (dyn r1) waiting" "set (item_batch r1) \<subseteq> waiting"
    by blast
  show ?thesis
  proof (cases x)
    case (Some e)
    then show ?thesis using f s1 by (auto simp: flush_pipe_def)
  next
    case None
    show ?thesis
      using f None s1
        rewrite_stage_shaped [of X src tn e0 "r1\<lparr>item_batch := []\<rparr>" waiting "item_batch r1" env]
      by (auto simp: flush_pipe_def Batcher_flush_def)
  qed
qed

lemma index_shaped:
  "\<exists>waiting. shaped X src (tableName dest) (events st) (fst (snd (index X s3 env src dest h st))) waiting"
proof -
  let ?r0 = "\<lparr>mh_batch = [], item_batch = [], total = 0, dyn = st\<rparr>"
  have s0: "shaped X src (tableName dest) (events st) st {}" by (simp add: shaped_def)
  show ?thesis
  proof (cases "shardMultihashes X s3 src h")
    case (Pair h' res)
    show ?thesis
    proof (cases res)
      case (Inl e)
      then show ?thesis using Pair s0 by (auto simp: index_def)
    next
      case (Inr ms)
      obtain r x where p: "push_multihashes X env src (tableName dest) (fst ms) ?r0 = (r, x)"
        by (cases "push_multihashes X env src (tableName dest) (fst ms) ?r0")
      have s: "shaped X src (tableName dest) (events st) (dyn r) (set (item_batch r))"
          "length (mh_batch r) < 100"
        using push_multihashes_shaped [of X src "tableName dest" "events st" ?r0 env "fst ms"] s0 p
        by auto
      obtain r' x' where f: "flush_pipe X env src (tableName dest) r = (r', x')"
        by (cases "flush_pipe X env src (tableName dest) r")
      have s': "\<exists>waiting. shaped X src (tableName dest) (events st) (dyn r') waiting"
        using flush_pipe_shaped [OF s, of env] f by simp
      show ?thesis
        using Pair Inr p f s s' by (auto simp: index_def split: option.splits)
    qed
  qed
qed

lemma index_progress:
  assumes ne: "canonical_carpath X src \<noteq> legacy_carpath src"
    and run: "index X s3 env src dest h st = (h', st', Inr resp)"
  shows "\<exists>ms n. shardMultihashes X s3 src h = (h', Inr (ms, None)) \<and>
           resp = \<lparr>statusCode = 200, body = OkUpdated n\<rparr> \<and>
           progress X src (tableName dest) st ms [] [] st' n"
proof -
  let ?r0 = "\<lparr>mh_batch = [], item_batch = [], total = 0, dyn = st\<rparr>"
  obtain ms r r' where sm: "shardMultihashes X s3 src h = (h', Inr (ms, None))"
    and p: "push_multihashes X env src (tableName dest) ms ?r0 = (r, None)"
    and f: "flush_pipe X env src (tableName dest) r = (r', None)"
    and res: "st' = dyn r'" "resp = \<lparr>statusCode = 200, body = OkUpdated (total r')\<rparr>"
    using run
    by (auto simp: index_def split: prod.splits sum.splits option.splits)
  have p0: "progress X src (tableName dest) st [] (mh_batch ?r0) (item_batch ?r0) (dyn ?r0) (total ?r0)"
    by (simp add: progress_def)
  have "progress X src (tableName dest) st ([] @ ms) (mh_batch r) (item_batch r) (dyn r) (total r)"
    by (rule push_multihashes_progress [OF ne p0 p])
  then have "progress X src (tableName dest) st ms [] [] (dyn r') (total r')"
    using flush_pipe_progress [OF ne _ f] by simp
  then show ?thesis using sm res by blast
qed

lemma example_multihashes:
  "shardMultihashes example_codecs store_accepting example_src [] =
     ([(s3Client example_src, GetObject ''dotstorage-prod-0'' ''complete/x.car.idx'')],
      Inr ([Digest_create 0x12 [1, 2], Digest_create 0x12 [3]], None))"
  by (simp add: shardMultihashes_def send_def store_accepting_def example_out_def example_src_def
      example_codecs_def example_chunks_def)

lemma example_legacy: "legacy_carpath example_src = ''us-west-2/dotstorage-prod-0/complete/x.car''"
  by (simp add: legacy_carpath_def example_src_def)

lemma example_keys:
  "base58btc_encode example_codecs (multihash_bytes example_codecs (Digest_create 0x12 [1, 2])) = [CHR 0x01, CHR 0x02]"
  "base58btc_encode example_codecs (multihash_bytes example_codecs (Digest_create 0x12 [3])) = [CHR 0x03]"
  by (simp_all add: example_codecs_def Digest_create_def char_of_def bit_0)

lemma example_run:
  "snd (snd (index example_codecs store_accepting dynamo_processing example_src example_tableID []
      example_dynamo)) = Inr \<lparr>statusCode = 200, body = OkUpdated 1\<rparr>"
  by (simp add: index_def example_multihashes push_multihash_def Batcher_transform_def Let_def
      flush_pipe_def Batcher_flush_def fetch_stage_def batch_get_def example_tableID_def
      dynamo_processing_def example_dynamo_def example_table_def example_legacy example_keys
      map_filter_def item_at_def rewrite_stage_def rewrite_batch_def writeItems_def
      numeral_2_eq_2 batch_write_def push_item_def)

lemma handler_regions_differ:
  assumes "region src = ''us-east-2'' \<or> region src = ''us-west-2''"
  shows "canonical_carpath X src \<noteq> legacy_carpath src"
  using assms by (auto simp: canonical_carpath_def legacy_carpath_def)

text \<open>
  C9. In every run of \<open>index\<close>, each BatchGetItem is of the destination table, for 1 to
  100 keys, each key \<open>(base58btc(multihash.bytes), legacy carpath)\<close>; and every request of
  every write is the put, under the canonical carpath, or the delete of a row that a read
  of this run returned, so a multihash for which no row came back is in no write. When the
  run succeeds (and the canonical carpath differs from the legacy one, as it does for
  every shard the handler admits), the keys looked up are, in order, those of the shard's
  multihashes; the response is 200 with \<^verbatim>\<open>{ok: true, updated: N}\<close> where \<open>N\<close> is the number of
  rows the reads returned; and each of these rows was in the initial table at the legacy
  carpath and is, in the final table, at the canonical carpath with the same offset and
  length and no longer at the legacy carpath.
\<close>

theorem index_counts_rewritten_rows:
  "(\<exists>evs. events (fst (snd (index X s3 env src dest h st))) = events st @ evs \<and>
      (\<forall>e\<in>set evs. \<forall>tn ks. fst e = BatchGetItem tn ks \<longrightarrow>
         tn = tableName dest \<and> ks \<noteq> [] \<and> length ks \<le> 100 \<and>
         (\<forall>k\<in>set ks. \<exists>m. k = (base58btc_encode X (multihash_bytes X m), legacy_carpath src))) \<and>
      (\<forall>e\<in>set evs. \<forall>q\<in>set (written e). \<exists>b\<in>set (fetched_rows evs).
         q = PutRequest (b\<lparr>carpath := canonical_carpath X src\<rparr>) \<or>
         q = DeleteRequest (blockmultihash b) (carpath b))) \<and>
   (canonical_carpath X src \<noteq> legacy_carpath src \<and>
    snd (snd (index X s3 env src dest h st)) = Inr resp \<longrightarrow>
      (\<exists>ms evs. snd (shardMultihashes X s3 src h) = Inr (ms, None) \<and>
         events (fst (snd (index X s3 env src dest h st))) = events st @ evs \<and>
         lookups evs =
           map (\<lambda>m. (base58btc_encode X (multihash_bytes X m), legacy_carpath src)) ms \<and>
         resp = \<lparr>statusCode = 200, body = OkUpdated (length (fetched_rows evs))\<rparr> \<and>
         (\<forall>b\<in>set (fetched_rows evs).
            row_of src (tables st (tableName dest)) b \<and>
            row_done X src (tables (fst (snd (index X s3 env src dest h st))) (tableName dest)) b)))"
proof -
  let ?run = "index X s3 env src dest h st"
  obtain waiting evs where evs: "events (fst (snd ?run)) = events st @ evs"
      "\<forall>e\<in>set evs. get_ok X src (tableName dest) e \<and> from_rows X src (set (fetched_rows evs)) e"
    using index_shaped [of X src dest st s3 env h] unfolding shaped_def by blast
  have gets: "tn = tableName dest \<and> ks \<noteq> [] \<and> length ks \<le> 100 \<and>
         (\<forall>k\<in>set ks. \<exists>m. k = (base58btc_encode X (multihash_bytes X m), legacy_carpath src))"
    if mem: "e \<in> set evs" and cmd: "fst e = BatchGetItem tn ks" for e tn ks
  proof -
    have "get_ok X src (tableName dest) e" using evs(2) mem by blast
    then obtain batch where "tn = tableName dest" "ks = map (legacy_key X src) batch"
        "batch \<noteq> []" "length batch \<le> 100"
      using cmd unfolding get_ok_def by blast
    then show ?thesis by (auto simp: legacy_key_def)
  qed
  have writes: "\<exists>b\<in>set (fetched_rows evs).
         q = PutRequest (b\<lparr>carpath := canonical_carpath X src\<rparr>) \<or>
         q = DeleteRequest (blockmultihash b) (carpath b)"
    if "e \<in> set evs" "q \<in> set (written e)" for e q
    using evs(2) that unfolding from_rows_def by blast
  have first: "\<exists>evs. events (fst (snd ?run)) = events st @ evs \<and>
      (\<forall>e\<in>set evs. \<forall>tn ks. fst e = BatchGetItem tn ks \<longrightarrow>
         tn = tableName dest \<and> ks \<noteq> [] \<and> length ks \<le> 100 \<and>
         (\<forall>k\<in>set ks. \<exists>m. k = (base58btc_encode X (multihash_bytes X m), legacy_carpath src))) \<and>
      (\<forall>e\<in>set evs. \<forall>q\<in>set (written e). \<exists>b\<in>set (fetched_rows evs).
         q = PutRequest (b\<lparr>carpath := canonical_carpath X src\<rparr>) \<or>
         q = DeleteRequest (blockmultihash b) (carpath b))"
    using evs(1) gets writes by blast
  have second: "\<exists>ms evs. snd (shardMultihashes X s3 src h) = Inr (ms, None) \<and>
         events (fst (snd ?run)) = events st @ evs \<and>
         lookups evs =
           map (\<lambda>m. (base58btc_encode X (multihash_bytes X m), legacy_carpath src)) ms \<and>
         resp = \<lparr>statusCode = 200, body = OkUpdated (length (fetched_rows evs))\<rparr> \<and>
         (\<forall>b\<in>set (fetched_rows evs).
            row_of src (tables st (tableName dest)) b \<and>
            row_done X src (tables (fst (snd ?run)) (tableName dest)) b)"
    if ne: "canonical_carpath X src \<noteq> legacy_carpath src" and ok: "snd (snd ?run) = Inr resp"
  proof -
    have run: "?run = (fst ?run, fst (snd ?run), Inr resp)" using ok by (simp add: prod_eq_iff)
    obtain ms n where p: "shardMultihashes X s3 src h = (fst ?run, Inr (ms, None))"
        "resp = \<lparr>statusCode = 200, body = OkUpdated n\<rparr>"
        "progress X src (tableName dest) st ms [] [] (fst (snd ?run)) n"
      using index_progress [OF ne run] by blast
    obtain evs' where e: "events (fst (snd ?run)) = events st @ evs'"
        "lookups evs' @ map (legacy_key X src) [] = map (legacy_key X src) ms"
        "n + length ([] :: BlockIndexItem list) = length (fetched_rows evs')"
        "\<forall>b\<in>set (fetched_rows evs'). row_of src (tables st (tableName dest)) b \<and>
           (b \<in> set [] \<or> row_done X src (tables (fst (snd ?run)) (tableName dest)) b)"
      using p(3) unfolding progress_def by blast
    have "lookups evs' = map (\<lambda>m. (base58btc_encode X (multihash_bytes X m), legacy_carpath src)) ms"
      using e(2) by (simp add: legacy_key_def [abs_def])
    moreover have "resp = \<lparr>statusCode = 200, body = OkUpdated (length (fetched_rows evs'))\<rparr>"
      using p(2) e(3) by simp
    moreover have "\<forall>b\<in>set (fetched_rows evs').
            row_of src (tables st (tableName dest)) b \<and>
            row_done X src (tables (fst (snd ?run)) (tableName dest)) b"
      using e(4) by simp
    moreover have "snd (shardMultihashes X s3 src h) = Inr (ms, None)" using p(1) by simp
    ultimately show ?thesis using e(1) by blast
  qed
  show ?thesis using first second by blast
qed

theorem index_counts_rewritten_rows_witness:
  "\<exists>ms evs. snd (shardMultihashes example_codecs store_accepting example_src []) = Inr (ms, None) \<and>
     events (fst (snd (index example_codecs store_accepting dynamo_processing example_src
        example_tableID [] example_dynamo))) = events example_dynamo @ evs \<and>
     lookups evs = map (\<lambda>m. (base58btc_encode example_codecs (multihash_bytes example_codecs m),
        legacy_carpath example_src)) ms \<and>
     \<lparr>statusCode = 200, body = OkUpdated 1\<rparr> =
       \<lparr>statusCode = 200, body = OkUpdated (length (fetched_rows evs))\<rparr> \<and>
     (\<forall>b\<in>set (fetched_rows evs).
        row_of example_src (tables example_dynamo (tableName example_tableID)) b \<and>
        row_done example_codecs example_src
          (tables (fst (snd (index example_codecs store_accepting dynamo_processing example_src
             example_tableID [] example_dynamo))) (tableName example_tableID)) b)"
proof -
  have ne: "canonical_carpath example_codecs example_src \<noteq> legacy_carpath example_src"
    by (rule handler_regions_differ) (simp add: example_src_def)
  show ?thesis
    using index_counts_rewritten_rows [of example_codecs store_accepting dynamo_processing
        example_src example_tableID "[]" example_dynamo "\<lparr>statusCode = 200, body = OkUpdated 1\<rparr>"]
      ne example_run
    by blast
qed

lemma puts_applied:
  assumes "retry_write n env tn (map (\<lambda>b. PutRequest (b\<lparr>carpath := c\<rparr>)) batch) st = (st', Inr ())"
  shows "\<forall>b\<in>set batch. \<exists>b'\<in>set batch. blockmultihash b' = blockmultihash b \<and>
           tables st' tn (blockmultihash b, c) = Some (offset b', length' b')"
proof -
  let ?puts = "map (\<lambda>b. PutRequest (b\<lparr>carpath := c\<rparr>)) batch"
  let ?P = "\<lambda>r t. \<exists>r'\<in>set ?puts. request_key r' = request_key r \<and> t (request_key r) = request_value r'"
  have pres: "\<forall>t r r'. r \<in> set ?puts \<longrightarrow> r' \<in> set ?puts \<longrightarrow> ?P r t \<longrightarrow> ?P r (apply_write t r')"
  proof (intro allI impI)
    fix t r r'
    assume r: "r \<in> set ?puts" and r': "r' \<in> set ?puts" and p: "?P r t"
    show "?P r (apply_write t r')"
    proof (cases "request_key r' = request_key r")
      case True
      then have "apply_write t r' (request_key r) = request_value r'"
        using apply_write_at [of t r'] by simp
      then show ?thesis using r' True by blast
    next
      case False
      then have "apply_write t r' (request_key r) = t (request_key r)"
        using apply_write_other [of "request_key r" r' t] by simp
      then show ?thesis using p by simp
    qed
  qed
  have est: "\<forall>t r. r \<in> set ?puts \<longrightarrow> ?P r (apply_write t r)"
    using apply_write_at by blast
  have all: "\<forall>r\<in>{} \<union> set ?puts. ?P r (tables st' tn)"
    by (rule retry_write_applied [where S = "set ?puts" and P = ?P, OF pres est _ _ _ assms]) simp_all
  show ?thesis
  proof
    fix b
    assume b: "b \<in> set batch"
    then have "PutRequest (b\<lparr>carpath := c\<rparr>) \<in> set ?puts" by simp
    then obtain r' where r': "r' \<in> set ?puts"
        "request_key r' = request_key (PutRequest (b\<lparr>carpath := c\<rparr>))"
        "tables st' tn (request_key (PutRequest (b\<lparr>carpath := c\<rparr>))) = request_value r'"
      using all by blast
    then obtain b' where "b' \<in> set batch" "r' = PutRequest (b'\<lparr>carpath := c\<rparr>)" by auto
    then show "\<exists>b'\<in>set batch. blockmultihash b' = blockmultihash b \<and>
           tables st' tn (blockmultihash b, c) = Some (offset b', length' b')"
      using r'(2,3) by auto
  qed
qed

text \<open>
  C5. The events of \<open>rewrite_batch\<close>, the work on one batch of rows, are put events \<open>pe\<close>
  followed by delete events \<open>de\<close>, where \<open>pe\<close> are exactly the events of \<open>writeItems\<close> on the
  puts. There are 1 to 3 put events; the first is one BatchWriteItem of the put of every
  row of the batch with the carpath replaced by the canonical one (the other attributes
  are kept); each later one resends what the one before left: the unprocessed requests,
  or all of them when the send was rejected; all but the last left something to resend.
  If there is any delete event then the last put event reported nothing unprocessed, the
  put phase has succeeded, and in the table as it is when the put phase ends every row
  of the batch is at the canonical carpath with the offset and length of a row of the
  batch with that multihash; the delete events are 1 to 3, the first one the delete of
  the key (blockmultihash, carpath) of every row of the batch, retried in the same way.
  If the last put event left something unprocessed or was rejected, it was the third,
  no delete is sent, and \<open>rewrite_batch\<close> fails with \<^verbatim>\<open>N unprocessed items\<close> or with the
  rejection.
\<close>

theorem rewrite_batch_puts_before_deletes:
  "\<exists>pe de.
     events (fst (rewrite_batch X env src tn batch st)) = events st @ pe @ de \<and>
     events (fst (writeItems env tn
        (map (\<lambda>b. PutRequest (b\<lparr>carpath := canonical_carpath X src\<rparr>)) batch) st)) = events st @ pe \<and>
     pe \<noteq> [] \<and> length pe \<le> 3 \<and> retry_chain tn pe \<and>
     fst (hd pe) = BatchWriteItem tn
        (map (\<lambda>b. PutRequest (b\<lparr>carpath := canonical_carpath X src\<rparr>)) batch) \<and>
     (\<forall>e\<in>set pe. \<exists>xs. fst e = BatchWriteItem tn xs \<and>
        set xs \<subseteq> set (map (\<lambda>b. PutRequest (b\<lparr>carpath := canonical_carpath X src\<rparr>)) batch)) \<and>
     (\<forall>e\<in>set (butlast pe). snd e \<noteq> UnprocessedItems []) \<and>
     (de \<noteq> [] \<longrightarrow>
        snd (last pe) = UnprocessedItems [] \<and>
        snd (writeItems env tn
          (map (\<lambda>b. PutRequest (b\<lparr>carpath := canonical_carpath X src\<rparr>)) batch) st) = Inr () \<and>
        (\<forall>b\<in>set batch. \<exists>b'\<in>set batch. blockmultihash b' = blockmultihash b \<and>
           tables (fst (writeItems env tn
               (map (\<lambda>b. PutRequest (b\<lparr>carpath := canonical_carpath X src\<rparr>)) batch) st)) tn
             (blockmultihash b, canonical_carpath X src) = Some (offset b', length' b')) \<and>
        length de \<le> 3 \<and> retry_chain tn de \<and>
        fst (hd de) = BatchWriteItem tn (map (\<lambda>b. DeleteRequest (blockmultihash b) (carpath b)) batch) \<and>
        (\<forall>e\<in>set de. \<exists>xs. fst e = BatchWriteItem tn xs \<and>
           set xs \<subseteq> set (map (\<lambda>b. DeleteRequest (blockmultihash b) (carpath b)) batch))) \<and>
     (snd (last pe) \<noteq> UnprocessedItems [] \<longrightarrow>
        de = [] \<and> length pe = 3 \<and>
        (\<forall>u. snd (last pe) = UnprocessedItems u \<longrightarrow>
           snd (rewrite_batch X env src tn batch st) = Inl (UnprocessedError (length u))) \<and>
        (\<forall>f. snd (last pe) = Rejected f \<longrightarrow>
           snd (rewrite_batch X env src tn batch st) = Inl (EnvError f)))"
proof -
  let ?puts = "map (\<lambda>b. PutRequest (b\<lparr>carpath := canonical_carpath X src\<rparr>)) batch"
  let ?dels = "map (\<lambda>b. DeleteRequest (blockmultihash b) (carpath b)) batch"
  obtain st1 r1 where w1: "retry_write 2 env tn ?puts st = (st1, r1)"
    by (cases "retry_write 2 env tn ?puts st")
  obtain pe where pe: "events st1 = events st @ pe" "pe \<noteq> []" "length pe \<le> 3"
      "fst (hd pe) = BatchWriteItem tn ?puts" "retry_chain tn pe"
      "\<forall>e\<in>set pe. \<exists>xs. fst e = BatchWriteItem tn xs \<and> set xs \<subseteq> set ?puts"
      "r1 = Inr () \<longleftrightarrow> snd (last pe) = UnprocessedItems []"
      "\<forall>e\<in>set (butlast pe). snd e \<noteq> UnprocessedItems []"
      "\<forall>x. r1 = Inl x \<longrightarrow> length pe = Suc 2 \<and>
         (\<forall>f. snd (last pe) = Rejected f \<longrightarrow> x = EnvError f) \<and>
         (\<forall>u. snd (last pe) = UnprocessedItems u \<longrightarrow> x = UnprocessedError (length u))"
    using retry_write_events [of 2 env tn ?puts st] unfolding w1 fst_conv snd_conv
    by (auto simp: numeral_3_eq_3)
  show ?thesis
  proof (cases r1)
    case (Inl x)
    have run: "rewrite_batch X env src tn batch st = (st1, Inl x)"
      using w1 Inl by (simp add: rewrite_batch_def writeItems_def)
    have bad: "snd (last pe) \<noteq> UnprocessedItems []" using pe(7) Inl by simp
    show ?thesis
      apply (rule exI [of _ pe], rule exI [of _ "[]"])
      using run w1 pe bad Inl by (simp add: writeItems_def numeral_3_eq_3)
  next
    case (Inr u)
    obtain st2 r2 where w2: "retry_write 2 env tn ?dels st1 = (st2, r2)"
      by (cases "retry_write 2 env tn ?dels st1")
    obtain de where de: "events st2 = events st1 @ de" "de \<noteq> []" "length de \<le> 3"
        "fst (hd de) = BatchWriteItem tn ?dels" "retry_chain tn de"
        "\<forall>e\<in>set de. \<exists>xs. fst e = BatchWriteItem tn xs \<and> set xs \<subseteq> set ?dels"
      using retry_write_events [of 2 env tn ?dels st1] unfolding w2 fst_conv snd_conv
      by (auto simp: numeral_3_eq_3)
    have run: "fst (rewrite_batch X env src tn batch st) = st2"
      using w1 w2 Inr by (simp add: rewrite_batch_def writeItems_def split: sum.splits)
    have good: "snd (last pe) = UnprocessedItems []" using pe(7) Inr by simp
    have w1': "retry_write 2 env tn ?puts st = (st1, Inr ())" using w1 Inr by simp
    note rows = puts_applied [OF w1']
    show ?thesis
      apply (rule exI [of _ pe], rule exI [of _ de])
      using run w1' pe(1-6,8) de good rows by (simp add: writeItems_def)
  qed
qed

lemma example_puts:
  "events (fst (writeItems dynamo_throttling ''blocks''
      (map (\<lambda>b. PutRequest (b\<lparr>carpath := canonical_carpath example_codecs example_src\<rparr>)) [example_row])
      example_dynamo)) =
   [(BatchWriteItem ''blocks'' [PutRequest (example_row\<lparr>carpath := canonical_carpath example_codecs example_src\<rparr>)],
     UnprocessedItems [PutRequest (example_row\<lparr>carpath := canonical_carpath example_codecs example_src\<rparr>)]),
    (BatchWriteItem ''blocks'' [PutRequest (example_row\<lparr>carpath := canonical_carpath example_codecs example_src\<rparr>)],
     UnprocessedItems [])]"
  by (simp add: writeItems_def numeral_2_eq_2 batch_write_def dynamo_throttling_def
      example_dynamo_def Let_def)

lemma example_rewrite:
  "events (fst (rewrite_batch example_codecs dynamo_throttling example_src ''blocks'' [example_row]
      example_dynamo)) =
   [(BatchWriteItem ''blocks'' [PutRequest (example_row\<lparr>carpath := canonical_carpath example_codecs example_src\<rparr>)],
     UnprocessedItems [PutRequest (example_row\<lparr>carpath := canonical_carpath example_codecs example_src\<rparr>)]),
    (BatchWriteItem ''blocks'' [PutRequest (example_row\<lparr>carpath := canonical_carpath example_codecs example_src\<rparr>)],
     UnprocessedItems []),
    (BatchWriteItem ''blocks'' [DeleteRequest (blockmultihash example_row) (carpath example_row)],
     UnprocessedItems [])]"
  by (simp add: rewrite_batch_def writeItems_def numeral_2_eq_2 batch_write_def
      dynamo_throttling_def example_dynamo_def Let_def)

theorem rewrite_batch_puts_before_deletes_witness:
  "\<exists>pe de.
     events (fst (rewrite_batch example_codecs dynamo_throttling example_src ''blocks'' [example_row]
        example_dynamo)) = pe @ de \<and>
     pe = [(BatchWriteItem ''blocks'' [PutRequest (example_row\<lparr>carpath := canonical_carpath example_codecs example_src\<rparr>)],
            UnprocessedItems [PutRequest (example_row\<lparr>carpath := canonical_carpath example_codecs example_src\<rparr>)]),
           (BatchWriteItem ''blocks'' [PutRequest (example_row\<lparr>carpath := canonical_carpath example_codecs example_src\<rparr>)],
            UnprocessedItems [])] \<and>
     de = [(BatchWriteItem ''blocks'' [DeleteRequest (blockmultihash example_row) (carpath example_row)],
            UnprocessedItems [])] \<and>
     retry_chain ''blocks'' pe \<and>
     tables (fst (writeItems dynamo_throttling ''blocks''
         (map (\<lambda>b. PutRequest (b\<lparr>carpath := canonical_carpath example_codecs example_src\<rparr>)) [example_row])
         example_dynamo)) ''blocks''
       (blockmultihash example_row, canonical_carpath example_codecs example_src) = Some (10, 20)"
proof -
  let ?c = "canonical_carpath example_codecs example_src"
  obtain pe de where
    ev: "events (fst (rewrite_batch example_codecs dynamo_throttling example_src ''blocks''
          [example_row] example_dynamo)) = events example_dynamo @ pe @ de"
    and pe: "events (fst (writeItems dynamo_throttling ''blocks''
          (map (\<lambda>b. PutRequest (b\<lparr>carpath := ?c\<rparr>)) [example_row]) example_dynamo)) =
          events example_dynamo @ pe"
    and chain: "retry_chain ''blocks'' pe"
    and after: "de \<noteq> [] \<longrightarrow>
        (\<forall>b\<in>set [example_row]. \<exists>b'\<in>set [example_row]. blockmultihash b' = blockmultihash b \<and>
           tables (fst (writeItems dynamo_throttling ''blocks''
               (map (\<lambda>b. PutRequest (b\<lparr>carpath := ?c\<rparr>)) [example_row]) example_dynamo)) ''blocks''
             (blockmultihash b, ?c) = Some (offset b', length' b'))"
    using rewrite_batch_puts_before_deletes [of example_codecs dynamo_throttling example_src
        "''blocks''" "[example_row]" example_dynamo]
    by blast
  have e0: "events example_dynamo = []" by (simp add: example_dynamo_def)
  have pe': "pe = [(BatchWriteItem ''blocks'' [PutRequest (example_row\<lparr>carpath := ?c\<rparr>)],
            UnprocessedItems [PutRequest (example_row\<lparr>carpath := ?c\<rparr>)]),
           (BatchWriteItem ''blocks'' [PutRequest (example_row\<lparr>carpath := ?c\<rparr>)],
            UnprocessedItems [])]"
    using pe unfolding example_puts e0 by simp
  have de': "de = [(BatchWriteItem ''blocks'' [DeleteRequest (blockmultihash example_row) (carpath example_row)],
            UnprocessedItems [])]"
    using ev unfolding example_rewrite e0 pe' by simp
  have row: "tables (fst (writeItems dynamo_throttling ''blocks''
         (map (\<lambda>b. PutRequest (b\<lparr>carpath := ?c\<rparr>)) [example_row]) example_dynamo)) ''blocks''
       (blockmultihash example_row, ?c) = Some (10, 20)"
    using after de' by (simp add: example_row_def)
  show ?thesis
    using ev e0 pe' de' chain row by simp
qed

theorem index_leaves_other_rows_witness:
  "tables (fst (snd (index example_codecs store_accepting dynamo_processing example_src
      example_tableID [] example_dynamo))) ''blocks''
     ([CHR 0x01, CHR 0x02], ''us-west-2/dotstorage-prod-0/raw/u/root/x.car'') = Some (10, 20)"
  using index_leaves_other_rows [of example_src example_codecs store_accepting dynamo_processing
      example_tableID "[]" example_dynamo]
  by (simp add: example_legacy canonical_carpath_def example_dynamo_def example_table_def)

section \<open>Properties of the multihash enumeration\<close>

text \<open>
  C8. Every run of \<open>shardMultihashes\<close> first sends the GET of the side index
  \<^verbatim>\<open>{src.key}.idx\<close>. When the store answers it with a body, that is the only request and the
  multihashes are those of the entries that \<open>MultihashIndexSortedReader\<close> reads from the
  body. When the GET is rejected with status 404, the second and last request is the GET
  of the shard itself, and when that is answered with a body the multihashes are
  \<open>cid.multihash\<close> of the blocks that \<open>CARReaderStream\<close> reads from it. When the GET of the
  side index is rejected with any other status, or with none, \<open>shardMultihashes\<close> fails
  with \<^verbatim>\<open>failed to read index\<close> and the rejection as its cause, no other request is sent,
  and \<open>index\<close> fails with that error and leaves the table as it is.
\<close>

theorem shardMultihashes_sources:
  "(\<exists>t. fst (shardMultihashes X env src h) =
       h @ (s3Client src, GetObject (bucket src) (key src @ ''.idx'')) # t) \<and>
   (env h (s3Client src, GetObject (bucket src) (key src @ ''.idx'')) = Inr res \<and> Body res = Some b \<longrightarrow>
      shardMultihashes X env src h =
        (h @ [(s3Client src, GetObject (bucket src) (key src @ ''.idx''))],
         Inr (map fst (fst (MultihashIndexSortedReader X b)), snd (MultihashIndexSortedReader X b)))) \<and>
   (env h (s3Client src, GetObject (bucket src) (key src @ ''.idx'')) = Inl f \<and> fst f = Some 404 \<longrightarrow>
      fst (shardMultihashes X env src h) =
        h @ [(s3Client src, GetObject (bucket src) (key src @ ''.idx'')),
             (s3Client src, GetObject (bucket src) (key src))] \<and>
      (env (h @ [(s3Client src, GetObject (bucket src) (key src @ ''.idx''))])
           (s3Client src, GetObject (bucket src) (key src)) = Inr res' \<and> Body res' = Some b' \<longrightarrow>
         snd (shardMultihashes X env src h) =
           Inr (map (\<lambda>block. cid_multihash (blk_cid block)) (fst (CARReaderStream X b')),
                snd (CARReaderStream X b')))) \<and>
   (env h (s3Client src, GetObject (bucket src) (key src @ ''.idx'')) = Inl f \<and> fst f \<noteq> Some 404 \<longrightarrow>
      shardMultihashes X env src h =
        (h @ [(s3Client src, GetObject (bucket src) (key src @ ''.idx''))],
         Inl (ErrorCause (''failed to read index: '' @ key src @ ''.idx'') (EnvError f))) \<and>
      index X env denv src dest h st =
        (h @ [(s3Client src, GetObject (bucket src) (key src @ ''.idx''))], st,
         Inl (ErrorCause (''failed to read index: '' @ key src @ ''.idx'') (EnvError f))))"
proof -
  let ?idx = "(s3Client src, GetObject (bucket src) (key src @ ''.idx''))"
  have first: "\<exists>t. fst (shardMultihashes X env src h) = h @ ?idx # t"
    by (simp add: shardMultihashes_def shardBlocks_def send_def split: sum.splits option.splits)
  have present: "shardMultihashes X env src h =
        (h @ [?idx],
         Inr (map fst (fst (MultihashIndexSortedReader X b)), snd (MultihashIndexSortedReader X b)))"
    if "env h ?idx = Inr res" "Body res = Some b"
    using that by (simp add: shardMultihashes_def send_def)
  have absent: "fst (shardMultihashes X env src h) = h @ [?idx, (s3Client src, GetObject (bucket src) (key src))]"
    if "env h ?idx = Inl f" "fst f = Some 404"
    using that by (simp add: shardMultihashes_def shardBlocks_def send_def split: sum.splits option.splits)
  have fallback: "snd (shardMultihashes X env src h) =
           Inr (map (\<lambda>block. cid_multihash (blk_cid block)) (fst (CARReaderStream X b')),
                snd (CARReaderStream X b'))"
    if "env h ?idx = Inl f" "fst f = Some 404"
      "env (h @ [?idx]) (s3Client src, GetObject (bucket src) (key src)) = Inr res'" "Body res' = Some b'"
    using that by (simp add: shardMultihashes_def shardBlocks_def send_def)
  have fatal: "shardMultihashes X env src h =
        (h @ [?idx], Inl (ErrorCause (''failed to read index: '' @ key src @ ''.idx'') (EnvError f)))"
    if "env h ?idx = Inl f" "fst f \<noteq> Some 404"
    using that by (simp add: shardMultihashes_def send_def)
  have fatal': "index X env denv src dest h st =
        (h @ [?idx], st, Inl (ErrorCause (''failed to read index: '' @ key src @ ''.idx'') (EnvError f)))"
    if "env h ?idx = Inl f" "fst f \<noteq> Some 404"
    using fatal [OF that] by (simp add: index_def)
  show ?thesis using first present absent fallback fatal fatal' by blast
qed

lemma example_src_simps:
  "region example_src = ''us-west-2''" "bucket example_src = ''dotstorage-prod-0''"
  "key example_src = ''complete/x.car''"
  by (simp_all add: example_src_def)

theorem shardMultihashes_sources_witness:
  "shardMultihashes example_codecs store_accepting example_src [] =
     ([(s3Client example_src, GetObject ''dotstorage-prod-0'' ''complete/x.car.idx'')],
      Inr (map fst (fst (MultihashIndexSortedReader example_codecs (example_chunks, None))),
           snd (MultihashIndexSortedReader example_codecs (example_chunks, None)))) \<and>
   shardMultihashes example_codecs store_no_index example_src [] =
     ([(s3Client example_src, GetObject ''dotstorage-prod-0'' ''complete/x.car.idx''),
       (s3Client example_src, GetObject ''dotstorage-prod-0'' ''complete/x.car'')],
      Inr (map (\<lambda>block. cid_multihash (blk_cid block))
             (fst (CARReaderStream example_codecs (example_chunks, None))),
           snd (CARReaderStream example_codecs (example_chunks, None)))) \<and>
   shardMultihashes example_codecs store_no_access example_src [] =
     ([(s3Client example_src, GetObject ''dotstorage-prod-0'' ''complete/x.car.idx'')],
      Inl (ErrorCause ''failed to read index: complete/x.car.idx'' (EnvError (Some 403, ''AccessDenied''))))"
proof -
  have a: "shardMultihashes example_codecs store_accepting example_src [] =
     ([(s3Client example_src, GetObject ''dotstorage-prod-0'' ''complete/x.car.idx'')],
      Inr (map fst (fst (MultihashIndexSortedReader example_codecs (example_chunks, None))),
           snd (MultihashIndexSortedReader example_codecs (example_chunks, None))))"
    using shardMultihashes_sources [where X = example_codecs and env = store_accepting
        and src = example_src and h = "[]" and res = example_out and b = "(example_chunks, None)"
        and f = "(None, [])" and res' = example_out and b' = "(example_chunks, None)"
        and denv = dynamo_processing and dest = example_tableID and st = example_dynamo]
    by (simp add: example_src_simps store_accepting_def example_out_def)
  have b: "shardMultihashes example_codecs store_no_index example_src [] =
     ([(s3Client example_src, GetObject ''dotstorage-prod-0'' ''complete/x.car.idx''),
       (s3Client example_src, GetObject ''dotstorage-prod-0'' ''complete/x.car'')],
      Inr (map (\<lambda>block. cid_multihash (blk_cid block))
             (fst (CARReaderStream example_codecs (example_chunks, None))),
           snd (CARReaderStream example_codecs (example_chunks, None))))"
    using shardMultihashes_sources [where X = example_codecs and env = store_no_index
        and src = example_src and h = "[]" and res = example_out and b = "(example_chunks, None)"
        and f = "(Some 404, ''NoSuchKey'')" and res' = example_out and b' = "(example_chunks, None)"
        and denv = dynamo_processing and dest = example_tableID and st = example_dynamo]
    by (simp add: example_src_simps store_no_index_def example_out_def suffix_def prod_eq_iff)
  have c: "shardMultihashes example_codecs store_no_access example_src [] =
     ([(s3Client example_src, GetObject ''dotstorage-prod-0'' ''complete/x.car.idx'')],
      Inl (ErrorCause ''failed to read index: complete/x.car.idx'' (EnvError (Some 403, ''AccessDenied''))))"
    using shardMultihashes_sources [where X = example_codecs and env = store_no_access
        and src = example_src and h = "[]" and res = example_out and b = "(example_chunks, None)"
        and f = "(Some 403, ''AccessDenied'')" and res' = example_out and b' = "(example_chunks, None)"
        and denv = dynamo_processing and dest = example_tableID and st = example_dynamo]
    by (simp add: example_src_simps store_no_access_def)
  show ?thesis using a b c by blast
qed

end
